theory Spec2Isabelle
  imports Complex_Main "HOL-Library.Multiset"
begin

chapter \<open>The program\<close>

section \<open>Data model of main.go\<close>

text \<open>
  The Go program keeps people in slices and membership sets in maps, both of which are
  references: a \<open>table\<close> struct holds a slice header and a map pointer, and copying the
  struct copies neither the backing array nor the map. The model therefore has an explicit
  store: backing arrays of \<open>person\<close> and Go maps live in a heap, addressed by naturals, and a
  table holds a slice header (\<open>slice\<close>) and an optional map address (\<open>None\<close> is the nil
  map).

  Go's \<open>int\<close> is modelled by \<open>int\<close>; the counters of the program are bounded by the number
  of people and preferences, far below 64 bits. The costs are \<open>float64\<close> in the source but
  only ever hold integers (sums of increments, their negation, and one product), so they
  are modelled by \<open>int\<close>. Temperatures, the cooling rate and the acceptance probability are
  \<open>float64\<close> in the source and exact reals here: rounding, infinities and NaN are outside
  the model. The cooling loop of \<open>anneal\<close> multiplies temperatures, and whether it ends
  depends on how the products are rounded; there the product of two \<open>float64\<close> values is a
  parameter of the model, of which nothing is assumed.
\<close>

record person =
  Name :: string
  Preferences :: "string list"

definition zeroPerson :: person where
  "zeroPerson = \<lparr>Name = [], Preferences = []\<rparr>"

type_synonym addr = nat

record slice =
  sbase :: addr
  soff :: nat
  slen :: nat
  scap :: nat

record table =
  capacity :: int
  people :: slice
  peopleMap :: "addr option"

record heap =
  arrays :: "addr \<Rightarrow> person list"
  maps :: "addr \<Rightarrow> (string \<Rightarrow> bool option)"
  nextArray :: addr
  nextMap :: addr

datatype panic =
  IntnInvalidArgument
  | IndexOutOfRange
  | SliceBoundsOutOfRange
  | MakeLenOutOfRange
  | NilMapAssignment

text \<open>The elements a slice header denotes: \<open>slen\<close> cells of its backing array from \<open>soff\<close>.\<close>

definition sliceElems :: "heap \<Rightarrow> slice \<Rightarrow> person list" where
  "sliceElems h s = take (slen s) (drop (soff s) (arrays h (sbase s)))"

text \<open>Reading a Go \<open>map[string]bool\<close>: a missing key, and every key of the nil map, reads
  as \<open>false\<close>.\<close>

definition goLookup :: "(string \<Rightarrow> bool option) \<Rightarrow> string \<Rightarrow> bool" where
  "goLookup m k = (case m k of None \<Rightarrow> False | Some b \<Rightarrow> b)"

definition mapOf :: "heap \<Rightarrow> addr option \<Rightarrow> (string \<Rightarrow> bool option)" where
  "mapOf h r = (case r of None \<Rightarrow> Map.empty | Some a \<Rightarrow> maps h a)"

section \<open>Objective functions\<close>

text \<open>
  \<open>sumFunction\<close> and \<open>countFunction\<close> walk the tables, and in each table its people; each
  person adds to the penalty counter when a declared plus-one is not in the table's
  \<open>peopleMap\<close>, and to the cost according to the preferences found in \<open>peopleMap\<close>. The
  accumulator is the pair \<open>(noOfPenalties, cost)\<close>.
\<close>

definition penaltyStep :: "(string \<Rightarrow> bool option) \<Rightarrow> (string \<Rightarrow> string option) \<Rightarrow> person \<Rightarrow> int \<Rightarrow> int" where
  "penaltyStep pm plusOnes p n =
     (case plusOnes (Name p) of
        None \<Rightarrow> n
      | Some plusOne \<Rightarrow> if \<not> goLookup pm plusOne then n + 1 else n)"

fun sumPrefs :: "(string \<Rightarrow> bool option) \<Rightarrow> string list \<Rightarrow> int \<Rightarrow> int" where
  "sumPrefs pm [] cost = cost"
| "sumPrefs pm (preference # ps) cost =
     sumPrefs pm ps (if goLookup pm preference then cost + 1 else cost)"

text \<open>The inner loop of \<open>countFunction\<close> leaves at the first preference found (\<open>break\<close>).\<close>

fun countPrefs :: "(string \<Rightarrow> bool option) \<Rightarrow> string list \<Rightarrow> int \<Rightarrow> int" where
  "countPrefs pm [] cost = cost"
| "countPrefs pm (preference # ps) cost =
     (if goLookup pm preference then cost + 1 else countPrefs pm ps cost)"

fun sumPeople :: "(string \<Rightarrow> bool option) \<Rightarrow> (string \<Rightarrow> string option) \<Rightarrow> person list \<Rightarrow> int \<times> int \<Rightarrow> int \<times> int" where
  "sumPeople pm plusOnes [] acc = acc"
| "sumPeople pm plusOnes (p # ps) (n, cost) =
     sumPeople pm plusOnes ps (penaltyStep pm plusOnes p n, sumPrefs pm (Preferences p) cost)"

fun countPeople :: "(string \<Rightarrow> bool option) \<Rightarrow> (string \<Rightarrow> string option) \<Rightarrow> person list \<Rightarrow> int \<times> int \<Rightarrow> int \<times> int" where
  "countPeople pm plusOnes [] acc = acc"
| "countPeople pm plusOnes (p # ps) (n, cost) =
     countPeople pm plusOnes ps (penaltyStep pm plusOnes p n, countPrefs pm (Preferences p) cost)"

fun sumTables :: "heap \<Rightarrow> (string \<Rightarrow> string option) \<Rightarrow> table list \<Rightarrow> int \<times> int \<Rightarrow> int \<times> int" where
  "sumTables h plusOnes [] acc = acc"
| "sumTables h plusOnes (t # ts) acc =
     sumTables h plusOnes ts
       (sumPeople (mapOf h (peopleMap t)) plusOnes (sliceElems h (people t)) acc)"

fun countTables :: "heap \<Rightarrow> (string \<Rightarrow> string option) \<Rightarrow> table list \<Rightarrow> int \<times> int \<Rightarrow> int \<times> int" where
  "countTables h plusOnes [] acc = acc"
| "countTables h plusOnes (t # ts) acc =
     countTables h plusOnes ts
       (countPeople (mapOf h (peopleMap t)) plusOnes (sliceElems h (people t)) acc)"

definition sumFunction :: "heap \<Rightarrow> table list \<Rightarrow> (string \<Rightarrow> string option) \<Rightarrow> int" where
  "sumFunction h assignment plusOnes =
     (case sumTables h plusOnes assignment (0, 0) of
        (noOfPenalties, cost) \<Rightarrow> if noOfPenalties > 0 then - noOfPenalties else cost)"

definition countFunction :: "heap \<Rightarrow> table list \<Rightarrow> (string \<Rightarrow> string option) \<Rightarrow> int" where
  "countFunction h assignment plusOnes =
     (case countTables h plusOnes assignment (0, 0) of
        (noOfPenalties, cost) \<Rightarrow> if noOfPenalties > 0 then - noOfPenalties else cost)"

fun getTotalPrefs :: "heap \<Rightarrow> table list \<Rightarrow> int" where
  "getTotalPrefs h [] = 0"
| "getTotalPrefs h (t # ts) =
     (\<Sum>p\<leftarrow>sliceElems h (people t). int (length (Preferences p))) + getTotalPrefs h ts"

fun getNoOfPeople :: "heap \<Rightarrow> table list \<Rightarrow> int" where
  "getNoOfPeople h [] = 0"
| "getNoOfPeople h (t # ts) = int (slen (people t)) + getNoOfPeople h ts"

definition hybridFunction :: "heap \<Rightarrow> table list \<Rightarrow> (string \<Rightarrow> string option) \<Rightarrow> int" where
  "hybridFunction h assignment plusOnes =
     (let noOfPeople = getNoOfPeople h assignment;
          totalPrefs = getTotalPrefs h assignment;
          highestPossibleCost = max noOfPeople totalPrefs;
          count = countFunction h assignment plusOnes;
          sum = sumFunction h assignment plusOnes
      in count * highestPossibleCost + sum)"

section \<open>Panics and the random source\<close>

text \<open>
  A run-time panic of the Go program is the \<open>Inl\<close> value of a result; \<open>andThen\<close> runs the
  next statement only when the previous one did not panic.
\<close>

definition andThen :: "panic + 'a \<Rightarrow> ('a \<Rightarrow> panic + 'b) \<Rightarrow> panic + 'b" where
  "andThen m f = (case m of Inl e \<Rightarrow> Inl e | Inr x \<Rightarrow> f x)"

text \<open>
  The global generator of \<open>math/rand\<close> is a supply of draws, handed out in order: raw
  naturals for \<open>rand.Intn\<close>, which reduces them into \<open>[0, n)\<close> and panics when \<open>n \<le> 0\<close>, and
  reals for \<open>rand.Float64\<close>, which returns a value of \<open>[0, 1)\<close> (a real outside that
  interval counts as \<open>0\<close>). A supply that has run out keeps returning \<open>0\<close>, so that every
  finite list stands for an infinite stream. The two kinds of draws are kept apart: which
  value a call receives does not depend on the calls of the other kind, and every outcome
  of the one generator is an outcome of the pair.
\<close>

record rand =
  intDraws :: "nat list"
  floatDraws :: "real list"

definition Intn :: "int \<Rightarrow> rand \<Rightarrow> panic + (nat \<times> rand)" where
  "Intn n r =
     (if n \<le> 0 then Inl IntnInvalidArgument
      else (case intDraws r of
              [] \<Rightarrow> Inr (0, r)
            | x # xs \<Rightarrow> Inr (x mod nat n, r\<lparr>intDraws := xs\<rparr>)))"

definition Float64 :: "rand \<Rightarrow> real \<times> rand" where
  "Float64 r =
     (case floatDraws r of
        [] \<Rightarrow> (0, r)
      | u # us \<Rightarrow> (if 0 \<le> u \<and> u < 1 then u else 0, r\<lparr>floatDraws := us\<rparr>))"

section \<open>Slices and maps in the heap\<close>

definition indexRead :: "heap \<Rightarrow> slice \<Rightarrow> nat \<Rightarrow> panic + person" where
  "indexRead h s i =
     (if i < slen s then Inr (arrays h (sbase s) ! (soff s + i)) else Inl IndexOutOfRange)"

definition indexWrite :: "heap \<Rightarrow> slice \<Rightarrow> nat \<Rightarrow> person \<Rightarrow> panic + heap" where
  "indexWrite h s i v =
     (if i < slen s
      then Inr (h\<lparr>arrays := (arrays h)(sbase s := (arrays h (sbase s))[soff s + i := v])\<rparr>)
      else Inl IndexOutOfRange)"

text \<open>\<open>s[lo:hi]\<close> of a slice: the bounds are checked against the capacity, not the length.\<close>

definition subSlice :: "slice \<Rightarrow> int \<Rightarrow> int \<Rightarrow> panic + slice" where
  "subSlice s lo hi =
     (if 0 \<le> lo \<and> lo \<le> hi \<and> hi \<le> int (scap s)
      then Inr \<lparr>sbase = sbase s, soff = soff s + nat lo, slen = nat (hi - lo),
                scap = scap s - nat lo\<rparr>
      else Inl SliceBoundsOutOfRange)"

text \<open>\<open>delete\<close> on the nil map does nothing; an assignment to an entry of it panics.\<close>

definition mapDelete :: "heap \<Rightarrow> addr option \<Rightarrow> string \<Rightarrow> heap" where
  "mapDelete h r k =
     (case r of None \<Rightarrow> h | Some a \<Rightarrow> h\<lparr>maps := (maps h)(a := (maps h a)(k := None))\<rparr>)"

definition mapAssign :: "heap \<Rightarrow> addr option \<Rightarrow> string \<Rightarrow> bool \<Rightarrow> panic + heap" where
  "mapAssign h r k v =
     (case r of
        None \<Rightarrow> Inl NilMapAssignment
      | Some a \<Rightarrow> Inr (h\<lparr>maps := (maps h)(a := (maps h a)(k \<mapsto> v))\<rparr>))"

definition tableAt :: "table list \<Rightarrow> nat \<Rightarrow> panic + table" where
  "tableAt ts i = (if i < length ts then Inr (ts ! i) else Inl IndexOutOfRange)"

section \<open>copyAssignment\<close>

text \<open>
  One iteration of the loop of \<open>copyAssignment\<close>: \<open>make\<close> allocates a fresh array of
  \<open>capacity\<close> zero persons (it panics on a negative length) and a fresh empty map; the
  built-in \<open>copy\<close> overwrites the first \<open>min (len dst) (len src)\<close> cells; the \<open>range\<close> loop
  copies every entry of the source map.
\<close>

definition goCopy :: "person list \<Rightarrow> person list \<Rightarrow> person list" where
  "goCopy dst src = take (min (length dst) (length src)) src @ drop (min (length dst) (length src)) dst"

definition copyTable :: "table \<Rightarrow> heap \<Rightarrow> panic + (table \<times> heap)" where
  "copyTable t h =
     (if capacity t < 0 then Inl MakeLenOutOfRange
      else
        let c = nat (capacity t);
            pa = nextArray h;
            ma = nextMap h;
            arr = goCopy (replicate c zeroPerson) (sliceElems h (people t))
        in Inr (\<lparr>capacity = capacity t,
                  people = \<lparr>sbase = pa, soff = 0, slen = c, scap = c\<rparr>,
                  peopleMap = Some ma\<rparr>,
                h\<lparr>arrays := (arrays h)(pa := arr),
                   maps := (maps h)(ma := mapOf h (peopleMap t)),
                   nextArray := Suc pa,
                   nextMap := Suc ma\<rparr>))"

fun copyAssignment :: "table list \<Rightarrow> heap \<Rightarrow> panic + (table list \<times> heap)" where
  "copyAssignment [] h = Inr ([], h)"
| "copyAssignment (t # ts) h =
     andThen (copyTable t h) (\<lambda>(t', h1).
     andThen (copyAssignment ts h1) (\<lambda>(ts', h2). Inr (t' # ts', h2)))"

section \<open>getNeighbour\<close>

text \<open>
  One iteration of the swap loop. \<open>tableOne\<close> and \<open>tableTwo\<close> are copies of two table
  structs of \<open>neighbourAssignment\<close>; their slices and maps are the ones the structs of
  \<open>neighbourAssignment\<close> point to, so the writes land in the neighbour.
\<close>

definition swapPeople :: "table list \<Rightarrow> int \<Rightarrow> rand \<times> heap \<Rightarrow> panic + (rand \<times> heap)" where
  "swapPeople neighbourAssignment cal st =
     (case st of (r, h) \<Rightarrow>
      andThen (Intn cal r) (\<lambda>(randOne, r1).
      andThen (Intn (cal - 1) r1) (\<lambda>(drawTwo, r2).
      let randTwo = (if drawTwo \<ge> randOne then drawTwo + 1 else drawTwo) in
      andThen (tableAt neighbourAssignment randOne) (\<lambda>tableOne.
      andThen (tableAt neighbourAssignment randTwo) (\<lambda>tableTwo.
      andThen (Intn (capacity tableOne) r2) (\<lambda>(randThree, r3).
      andThen (Intn (capacity tableTwo) r3) (\<lambda>(randFour, r4).
      andThen (indexRead h (people tableOne) randThree) (\<lambda>personOne.
      andThen (indexRead h (people tableTwo) randFour) (\<lambda>personTwo.
      andThen (indexWrite h (people tableOne) randThree personTwo) (\<lambda>h1.
      andThen (indexWrite h1 (people tableTwo) randFour personOne) (\<lambda>h2.
      let h3 = mapDelete h2 (peopleMap tableOne) (Name personOne);
          h4 = mapDelete h3 (peopleMap tableTwo) (Name personTwo)
      in
      andThen (mapAssign h4 (peopleMap tableOne) (Name personTwo) True) (\<lambda>h5.
      andThen (mapAssign h5 (peopleMap tableTwo) (Name personOne) True) (\<lambda>h6.
      Inr (r4, h6))))))))))))))"

fun swapLoop :: "nat \<Rightarrow> table list \<Rightarrow> int \<Rightarrow> rand \<times> heap \<Rightarrow> panic + (rand \<times> heap)" where
  "swapLoop 0 neighbourAssignment cal st = Inr st"
| "swapLoop (Suc n) neighbourAssignment cal st =
     andThen (swapPeople neighbourAssignment cal st) (swapLoop n neighbourAssignment cal)"

definition getNeighbour :: "table list \<Rightarrow> int \<Rightarrow> rand \<times> heap \<Rightarrow> panic + (table list \<times> rand \<times> heap)" where
  "getNeighbour currentAssignment swapCount st =
     (case st of (r, h) \<Rightarrow>
      let cal = int (length currentAssignment) in
      andThen (copyAssignment currentAssignment h) (\<lambda>(neighbourAssignment, h1).
      andThen (swapLoop (nat swapCount) neighbourAssignment cal (r, h1)) (\<lambda>(r', h').
      Inr (neighbourAssignment, r', h'))))"

section \<open>randomInitialisation\<close>

text \<open>The Fisher-Yates loop over \<open>people\<close>, in place; \<open>i\<close> is the loop index and the first
  argument the number of iterations left.\<close>

fun shuffleFrom :: "nat \<Rightarrow> nat \<Rightarrow> slice \<Rightarrow> rand \<times> heap \<Rightarrow> panic + (rand \<times> heap)" where
  "shuffleFrom 0 i ppl st = Inr st"
| "shuffleFrom (Suc n) i ppl st =
     (case st of (r, h) \<Rightarrow>
      andThen (Intn (int i + 1) r) (\<lambda>(j, r1).
      andThen (indexRead h ppl j) (\<lambda>pj.
      andThen (indexRead h ppl i) (\<lambda>pi.
      andThen (indexWrite h ppl i pj) (\<lambda>h1.
      andThen (indexWrite h1 ppl j pi) (\<lambda>h2.
      shuffleFrom n (Suc i) ppl (r1, h2)))))))"

text \<open>\<open>for _, person := range table.people { table.peopleMap[person.Name] = true }\<close>\<close>

fun markPeople :: "addr option \<Rightarrow> person list \<Rightarrow> heap \<Rightarrow> panic + heap" where
  "markPeople pm [] h = Inr h"
| "markPeople pm (p # ps) h = andThen (mapAssign h pm (Name p) True) (markPeople pm ps)"

text \<open>
  The fill loop \<open>for i, table := range assignment\<close>. The loop variable \<open>table\<close> is a copy of
  \<open>assignment[i]\<close> taken when the iteration starts: the statement
  \<open>assignment[i].people = people[pos : pos+table.capacity]\<close> changes the element and not the
  copy, so the inner \<open>range table.people\<close> walks the slice the table had on entry.
\<close>

fun fillTables :: "slice \<Rightarrow> table list \<Rightarrow> int \<Rightarrow> heap \<Rightarrow> panic + (table list \<times> heap)" where
  "fillTables ppl [] pos h = Inr ([], h)"
| "fillTables ppl (table # rest) pos h =
     andThen (subSlice ppl pos (pos + capacity table)) (\<lambda>s.
     andThen (markPeople (peopleMap table) (sliceElems h (people table)) h) (\<lambda>h1.
     andThen (fillTables ppl rest (pos + capacity table) h1) (\<lambda>(rest', h2).
     Inr (table\<lparr>people := s\<rparr> # rest', h2))))"

definition randomInitialisation :: "slice \<Rightarrow> table list \<Rightarrow> rand \<times> heap \<Rightarrow> panic + (table list \<times> rand \<times> heap)" where
  "randomInitialisation ppl tables st =
     andThen (shuffleFrom (slen ppl) 0 ppl st) (\<lambda>(r1, h1).
     andThen (fillTables ppl tables 0 h1) (\<lambda>(assignment, h2).
     Inr (assignment, r1, h2)))"

section \<open>The chain iterator\<close>

definition acceptanceProbability :: "int \<Rightarrow> int \<Rightarrow> real \<Rightarrow> real" where
  "acceptanceProbability oldCost newCost temperature =
     exp (real_of_int (newCost - oldCost) / temperature)"

text \<open>
  The parameters \<open>anneal\<close> hands down unchanged on every call are kept in one record. The
  cost function is the function value the flag \<open>-m\<close> selects.
\<close>

record params =
  plusOnes :: "string \<Rightarrow> string option"
  costFunction :: "heap \<Rightarrow> table list \<Rightarrow> (string \<Rightarrow> string option) \<Rightarrow> int"
  finalTemperature :: real
  coolingRate :: real
  internalIterations :: int
  swapCount :: int
  concurrentAnnealerCount :: int

text \<open>One pass through the body of the loop of \<open>annealerInternalIterator\<close>; the state is
  \<open>(updatedSolution, updatedCost)\<close>.\<close>

definition iteratorStep :: "params \<Rightarrow> real \<Rightarrow> table list \<times> int \<Rightarrow> rand \<times> heap \<Rightarrow> panic + ((table list \<times> int) \<times> rand \<times> heap)" where
  "iteratorStep P temperature cur st =
     (case cur of (updatedSolution, updatedCost) \<Rightarrow>
      andThen (getNeighbour updatedSolution (swapCount P) st) (\<lambda>(newCandidateSolution, r1, h1).
      let newCandidateCost = costFunction P h1 newCandidateSolution (plusOnes P) in
      if newCandidateCost > updatedCost
      then Inr ((newCandidateSolution, newCandidateCost), r1, h1)
      else
        let ap = acceptanceProbability updatedCost newCandidateCost temperature in
        (case Float64 r1 of (u, r2) \<Rightarrow>
           if ap > u
           then Inr ((newCandidateSolution, newCandidateCost), r2, h1)
           else Inr ((updatedSolution, updatedCost), r2, h1))))"



section \<open>anneal\<close>

text \<open>
  The ladder is the pair of arrays \<open>(annealerSolutions, annealerCosts)\<close>. An entry of
  \<open>annealerSolutions\<close> is a slice of table structs that is never written after it is
  built, so it is a list of tables here.
\<close>

type_synonym ladder = "table list list \<times> int list"

text \<open>
  \<open>anneal\<close> multiplies temperatures twice in a round: \<open>baseTemperature*math.Pow(2, float64(i))\<close>
  for the temperature of level \<open>i\<close>, and \<open>baseTemperature *= coolingRate\<close> at the end of the
  round. The product of two \<open>float64\<close> values is the exact product rounded to a \<open>float64\<close>.
  The functions of this section take that operation as their argument \<open>mul64\<close>, on the finite
  \<open>float64\<close> values seen as reals, and fix nothing about the rounding: what is proved of them
  holds for the arithmetic of the machine as for the exact one, \<open>exactProduct\<close>. The
  comparison \<open>baseTemperature > finalTemperature\<close> of two finite values is exact, and so is
  \<open>math.Pow(2, float64(i))\<close>, the power \<open>2 ^ i\<close>, for the levels \<open>i < 1024\<close> whose power is
  finite. An infinite temperature is not a value of the model.
\<close>

type_synonym float64mul = "real \<Rightarrow> real \<Rightarrow> real"




text \<open>The second inner loop: \<open>for i := concurrentAnnealerCount - 1; i > 0; i--\<close>. The
  argument is the value of \<open>i\<close> on entry.\<close>

fun exchangeFrom :: "nat \<Rightarrow> ladder \<Rightarrow> ladder" where
  "exchangeFrom 0 lad = lad"
| "exchangeFrom (Suc j) lad =
     (case lad of (annealerSolutions, annealerCosts) \<Rightarrow>
      exchangeFrom j
        (if annealerCosts ! Suc j > annealerCosts ! j
         then (annealerSolutions[Suc j := annealerSolutions ! j, j := annealerSolutions ! Suc j],
               annealerCosts[Suc j := annealerCosts ! j, j := annealerCosts ! Suc j])
         else lad))"

definition exchange :: "int \<Rightarrow> ladder \<Rightarrow> ladder" where
  "exchange concurrentAnnealers lad = exchangeFrom (nat (concurrentAnnealers - 1)) lad"




chapter \<open>Specification\<close>

section \<open>The invariants of the data model\<close>

text \<open>
  The notions the specification uses, stated on the occupants of a table, that is, on the
  persons its slice denotes: who is seated where, which declared companions are apart, and
  when a table's \<open>peopleMap\<close> is the set of the names of its occupants.
\<close>

definition occupants :: "heap \<Rightarrow> table \<Rightarrow> person list" where
  "occupants h t = sliceElems h (people t)"

definition seated :: "heap \<Rightarrow> table list \<Rightarrow> person list" where
  "seated h assignment = concat (map (occupants h) assignment)"

definition seatedWith :: "heap \<Rightarrow> table \<Rightarrow> string \<Rightarrow> bool" where
  "seatedWith h t n = (n \<in> Name ` set (occupants h t))"

definition violates :: "heap \<Rightarrow> (string \<Rightarrow> string option) \<Rightarrow> table \<Rightarrow> person \<Rightarrow> bool" where
  "violates h companions t p =
     (case companions (Name p) of None \<Rightarrow> False | Some q \<Rightarrow> \<not> seatedWith h t q)"

definition violations :: "heap \<Rightarrow> table list \<Rightarrow> (string \<Rightarrow> string option) \<Rightarrow> int" where
  "violations h assignment companions =
     (\<Sum>t\<leftarrow>assignment. int (length (filter (violates h companions t) (occupants h t))))"

definition nameSet :: "person list \<Rightarrow> (string \<Rightarrow> bool option)" where
  "nameSet ps = (\<lambda>k. if k \<in> Name ` set ps then Some True else None)"

definition peopleMapAgrees :: "heap \<Rightarrow> table \<Rightarrow> bool" where
  "peopleMapAgrees h t =
     (mapOf h (peopleMap t) = (\<lambda>k. if seatedWith h t k then Some True else None))"

text \<open>A slice header lies within an allocated backing array, a map pointer is nil or
  allocated: what every value of the running Go program satisfies.\<close>

definition sliceAllocated :: "heap \<Rightarrow> slice \<Rightarrow> bool" where
  "sliceAllocated h s =
     (sbase s < nextArray h \<and> slen s \<le> scap s \<and> soff s + scap s \<le> length (arrays h (sbase s)))"

definition tableAllocated :: "heap \<Rightarrow> table \<Rightarrow> bool" where
  "tableAllocated h t =
     (sliceAllocated h (people t) \<and> (case peopleMap t of None \<Rightarrow> True | Some a \<Rightarrow> a < nextMap h))"



section \<open>The cooling loop with a given number of rounds\<close>

text \<open>
  \<open>cooledTemperature mul64 rate n b\<close> is the value of \<open>baseTemperature\<close> after \<open>n\<close> rounds that
  started at \<open>b\<close>: \<open>n\<close> products by the cooling rate, each computed by \<open>mul64\<close> from the
  one before.
\<close>

fun cooledTemperature :: "float64mul \<Rightarrow> real \<Rightarrow> nat \<Rightarrow> real \<Rightarrow> real" where
  "cooledTemperature mul64 rate 0 b = b"
| "cooledTemperature mul64 rate (Suc n) b = cooledTemperature mul64 rate n (mul64 b rate)"



section \<open>Closed forms of the objective functions\<close>

text \<open>What one person, one table and the whole assignment add to the two accumulators of
  \<open>sumFunction\<close> and \<open>countFunction\<close>, and to \<open>getTotalPrefs\<close>.\<close>

definition satisfiedPrefs :: "(string \<Rightarrow> bool option) \<Rightarrow> person \<Rightarrow> int" where
  "satisfiedPrefs pm p = int (length (filter (goLookup pm) (Preferences p)))"

definition hasSatisfiedPref :: "(string \<Rightarrow> bool option) \<Rightarrow> person \<Rightarrow> int" where
  "hasSatisfiedPref pm p = (if \<exists>x\<in>set (Preferences p). goLookup pm x then 1 else 0)"

definition penaltyOf :: "(string \<Rightarrow> bool option) \<Rightarrow> (string \<Rightarrow> string option) \<Rightarrow> person \<Rightarrow> int" where
  "penaltyOf pm companions p = penaltyStep pm companions p 0"

definition tablePenalties :: "heap \<Rightarrow> (string \<Rightarrow> string option) \<Rightarrow> table \<Rightarrow> int" where
  "tablePenalties h po t = (\<Sum>p\<leftarrow>sliceElems h (people t). penaltyOf (mapOf h (peopleMap t)) po p)"

definition tableSum :: "heap \<Rightarrow> table \<Rightarrow> int" where
  "tableSum h t = (\<Sum>p\<leftarrow>sliceElems h (people t). satisfiedPrefs (mapOf h (peopleMap t)) p)"

definition tableCount :: "heap \<Rightarrow> table \<Rightarrow> int" where
  "tableCount h t = (\<Sum>p\<leftarrow>sliceElems h (people t). hasSatisfiedPref (mapOf h (peopleMap t)) p)"

definition tablePrefs :: "heap \<Rightarrow> table \<Rightarrow> int" where
  "tablePrefs h t = (\<Sum>p\<leftarrow>sliceElems h (people t). int (length (Preferences p)))"

definition penalties :: "heap \<Rightarrow> table list \<Rightarrow> (string \<Rightarrow> string option) \<Rightarrow> int" where
  "penalties h a po = (\<Sum>t\<leftarrow>a. tablePenalties h po t)"

text \<open>The value of the counter \<open>noOfPenalties\<close> of \<open>sumFunction\<close> when its loops end: the
  number of people with a declared plus-one whose name is not in the \<open>peopleMap\<close> of their
  table. The counter of \<open>countFunction\<close> takes the same steps.\<close>

definition noOfPenalties :: "heap \<Rightarrow> table list \<Rightarrow> (string \<Rightarrow> string option) \<Rightarrow> int" where
  "noOfPenalties h assignment companions = fst (sumTables h companions assignment (0, 0))"

definition rawSum :: "heap \<Rightarrow> table list \<Rightarrow> int" where
  "rawSum h a = (\<Sum>t\<leftarrow>a. tableSum h t)"

definition rawCount :: "heap \<Rightarrow> table list \<Rightarrow> int" where
  "rawCount h a = (\<Sum>t\<leftarrow>a. tableCount h t)"

section \<open>The heap of a neighbour\<close>

text \<open>The table struct \<open>copyAssignment\<close> builds for a table \<open>t\<close>, with a new array at
  \<open>pa\<close> and a new map at \<open>ma\<close>.\<close>

definition freshTable :: "addr \<Rightarrow> addr \<Rightarrow> table \<Rightarrow> table" where
  "freshTable pa ma t =
     \<lparr>capacity = capacity t,
      people = \<lparr>sbase = pa, soff = 0, slen = nat (capacity t), scap = nat (capacity t)\<rparr>,
      peopleMap = Some ma\<rparr>"

text \<open>The heap after one iteration of the swap loop that drew the tables \<open>i1\<close>, \<open>i2\<close> of the
  copy and the seats \<open>j1\<close>, \<open>j2\<close>.\<close>

definition swappedHeap :: "addr \<Rightarrow> addr \<Rightarrow> nat \<Rightarrow> nat \<Rightarrow> nat \<Rightarrow> nat \<Rightarrow> heap \<Rightarrow> heap" where
  "swappedHeap pa ma i1 j1 i2 j2 h =
     (let p1 = arrays h (pa + i1) ! j1;
          p2 = arrays h (pa + i2) ! j2
      in h\<lparr>arrays := (arrays h)
               (pa + i1 := (arrays h (pa + i1))[j1 := p2],
                pa + i2 := (arrays h (pa + i2))[j2 := p1]),
            maps := (maps h)
               (ma + i1 := ((maps h (ma + i1))(Name p1 := None))(Name p2 \<mapsto> True),
                ma + i2 := ((maps h (ma + i2))(Name p2 := None))(Name p1 \<mapsto> True))\<rparr>)"

text \<open>What \<open>k\<close> rounds of the swap loop do to a heap that holds a fresh copy of \<open>n\<close> tables
  at the array addresses from \<open>pa\<close> and the map addresses from \<open>ma\<close>: nothing outside the
  copy changes, and inside it at most \<open>2k\<close> seats.\<close>

definition swapsApplied :: "addr \<Rightarrow> addr \<Rightarrow> nat \<Rightarrow> nat \<Rightarrow> heap \<Rightarrow> heap \<Rightarrow> bool" where
  "swapsApplied pa ma n k h h' =
     (nextArray h' = nextArray h \<and> nextMap h' = nextMap h
      \<and> (\<forall>x. x < pa \<or> pa + n \<le> x \<longrightarrow> arrays h' x = arrays h x)
      \<and> (\<forall>x. x < ma \<or> ma + n \<le> x \<longrightarrow> maps h' x = maps h x)
      \<and> (\<forall>x. length (arrays h' x) = length (arrays h x))
      \<and> (\<exists>S. finite S \<and> card S \<le> 2 * k
            \<and> (\<forall>i j. (i, j) \<notin> S \<longrightarrow> arrays h' (pa + i) ! j = arrays h (pa + i) ! j)))"

text \<open>The seats of the copy, table by table, and the invariant of the swap loop on names
  and maps.\<close>

definition seatsAt :: "addr \<Rightarrow> nat \<Rightarrow> heap \<Rightarrow> person list list" where
  "seatsAt pa n h = map (\<lambda>i. arrays h (pa + i)) [0..<n]"

definition membershipKept :: "addr \<Rightarrow> addr \<Rightarrow> nat \<Rightarrow> heap \<Rightarrow> bool" where
  "membershipKept pa ma n h =
     (distinct (map Name (concat (seatsAt pa n h)))
      \<and> (\<forall>i<n. maps h (ma + i) = nameSet (arrays h (pa + i))))"

section \<open>Example data\<close>

text \<open>The four people of the specification's scenario, seated at two tables of two in two
  ways, with the maps of all four tables in agreement with the seats.\<close>

definition exA :: person where "exA = \<lparr>Name = ''A'', Preferences = [''B'']\<rparr>"

definition exB :: person where "exB = \<lparr>Name = ''B'', Preferences = [''A'']\<rparr>"

definition exC :: person where "exC = \<lparr>Name = ''C'', Preferences = [''D'']\<rparr>"

definition exD :: person where "exD = \<lparr>Name = ''D'', Preferences = []\<rparr>"

definition exHeap :: heap where
  "exHeap =
     \<lparr>arrays = (\<lambda>a. if a = 0 then [exA, exB] else if a = 1 then [exC, exD]
                     else if a = 2 then [exA, exC] else if a = 3 then [exB, exD] else []),
      maps = (\<lambda>a. if a = 0 then [''A'' \<mapsto> True, ''B'' \<mapsto> True]
                   else if a = 1 then [''C'' \<mapsto> True, ''D'' \<mapsto> True]
                   else if a = 2 then [''A'' \<mapsto> True, ''C'' \<mapsto> True]
                   else if a = 3 then [''B'' \<mapsto> True, ''D'' \<mapsto> True] else Map.empty),
      nextArray = 4, nextMap = 4\<rparr>"

definition exTable :: "nat \<Rightarrow> table" where
  "exTable a = \<lparr>capacity = 2, people = \<lparr>sbase = a, soff = 0, slen = 2, scap = 2\<rparr>, peopleMap = Some a\<rparr>"

definition exTogether :: "table list" where "exTogether = [exTable 0, exTable 1]"

definition exApart :: "table list" where "exApart = [exTable 2, exTable 3]"

definition exPlusOnes :: "string \<Rightarrow> string option" where "exPlusOnes = [''A'' \<mapsto> ''B'']"

text \<open>A random source whose four integer draws make \<open>getNeighbour\<close> swap \<open>B\<close> and \<open>C\<close> of
  the first seating, the heap after that call, and the parameters of a small run.\<close>

definition exRand :: rand where
  "exRand = \<lparr>intDraws = [0, 0, 1, 0], floatDraws = [1 / 2]\<rparr>"

definition exParams :: params where
  "exParams = \<lparr>plusOnes = Map.empty, costFunction = sumFunction, finalTemperature = 1 / 2,
     coolingRate = 1 / 2, internalIterations = 1, swapCount = 1, concurrentAnnealerCount = 2\<rparr>"

definition exNeighbourHeap :: heap where
  "exNeighbourHeap = exHeap\<lparr>
     arrays := (arrays exHeap)(4 := [exA, exC], 5 := [exB, exD]),
     maps := (maps exHeap)(4 := [''A'' \<mapsto> True, ''C'' \<mapsto> True], 5 := [''B'' \<mapsto> True, ''D'' \<mapsto> True]),
     nextArray := 6, nextMap := 6\<rparr>"

text \<open>
  The input \<open>main\<close> builds for two people and two tables of capacity \<open>1\<close>: the people slice
  at array \<open>0\<close>; for each table a slice of \<open>capacity\<close> zero persons and an empty map. The
  draws \<open>0, 1\<close> make the shuffle leave the order of the people as it is. \<open>initialTables\<close>
  and \<open>initialHeap\<close> are what \<open>randomInitialisation\<close> returns on it.
\<close>

definition mainPeople :: slice where
  "mainPeople = \<lparr>sbase = 0, soff = 0, slen = 2, scap = 2\<rparr>"

definition mainTables :: "table list" where
  "mainTables =
     [\<lparr>capacity = 1, people = \<lparr>sbase = 1, soff = 0, slen = 1, scap = 1\<rparr>, peopleMap = Some 0\<rparr>,
      \<lparr>capacity = 1, people = \<lparr>sbase = 2, soff = 0, slen = 1, scap = 1\<rparr>, peopleMap = Some 1\<rparr>]"

definition mainHeap :: heap where
  "mainHeap =
     \<lparr>arrays = (\<lambda>a. if a = 0 then [exA, exB] else if a = 1 then [zeroPerson]
                     else if a = 2 then [zeroPerson] else []),
      maps = (\<lambda>a. Map.empty),
      nextArray = 3, nextMap = 2\<rparr>"

definition mainRand :: rand where
  "mainRand = \<lparr>intDraws = [0, 1], floatDraws = []\<rparr>"

definition initialTables :: "table list" where
  "initialTables =
     [\<lparr>capacity = 1, people = \<lparr>sbase = 0, soff = 0, slen = 1, scap = 2\<rparr>, peopleMap = Some 0\<rparr>,
      \<lparr>capacity = 1, people = \<lparr>sbase = 0, soff = 1, slen = 1, scap = 1\<rparr>, peopleMap = Some 1\<rparr>]"

definition initialHeap :: heap where
  "initialHeap = mainHeap\<lparr>maps := (maps mainHeap)(0 := [[] \<mapsto> True], 1 := [[] \<mapsto> True])\<rparr>"

text \<open>
  The input \<open>main\<close> builds for the four people and two tables of capacity \<open>2\<close>, with the
  draws \<open>0, 1, 2, 3\<close> that make the shuffle leave the order; \<open>fourSeated\<close> and
  \<open>fourSeatedHeap\<close> are what \<open>randomInitialisation\<close> returns on it: \<open>A\<close> and \<open>B\<close> at the first
  table, \<open>C\<close> and \<open>D\<close> at the second. In \<open>fourPlusOnes\<close> the companion of \<open>A\<close> is \<open>B\<close> and
  the companion of \<open>C\<close> is \<open>A\<close>.
\<close>

definition fourPeople :: slice where
  "fourPeople = \<lparr>sbase = 0, soff = 0, slen = 4, scap = 4\<rparr>"

definition fourTables :: "table list" where
  "fourTables =
     [\<lparr>capacity = 2, people = \<lparr>sbase = 1, soff = 0, slen = 2, scap = 2\<rparr>, peopleMap = Some 0\<rparr>,
      \<lparr>capacity = 2, people = \<lparr>sbase = 2, soff = 0, slen = 2, scap = 2\<rparr>, peopleMap = Some 1\<rparr>]"

definition fourHeap :: heap where
  "fourHeap =
     \<lparr>arrays = (\<lambda>a. if a = 0 then [exA, exB, exC, exD] else if a = 1 then [zeroPerson, zeroPerson]
                     else if a = 2 then [zeroPerson, zeroPerson] else []),
      maps = (\<lambda>a. Map.empty),
      nextArray = 3, nextMap = 2\<rparr>"

definition fourRand :: rand where
  "fourRand = \<lparr>intDraws = [0, 1, 2, 3], floatDraws = []\<rparr>"

definition fourSeated :: "table list" where
  "fourSeated =
     [\<lparr>capacity = 2, people = \<lparr>sbase = 0, soff = 0, slen = 2, scap = 4\<rparr>, peopleMap = Some 0\<rparr>,
      \<lparr>capacity = 2, people = \<lparr>sbase = 0, soff = 2, slen = 2, scap = 2\<rparr>, peopleMap = Some 1\<rparr>]"

definition fourSeatedHeap :: heap where
  "fourSeatedHeap = fourHeap\<lparr>maps := (maps fourHeap)(0 := [[] \<mapsto> True], 1 := [[] \<mapsto> True])\<rparr>"

definition fourPlusOnes :: "string \<Rightarrow> string option" where
  "fourPlusOnes = [''A'' \<mapsto> ''B'', ''C'' \<mapsto> ''A'']"




chapter \<open>Verification\<close>

section \<open>Closed forms of the objective functions\<close>

lemma sumPrefs_eq: "sumPrefs pm ps c = c + int (length (filter (goLookup pm) ps))"
  by (induction ps arbitrary: c) auto

lemma countPrefs_eq: "countPrefs pm ps c = c + (if \<exists>x\<in>set ps. goLookup pm x then 1 else 0)"
  by (induction ps arbitrary: c) auto

lemma penaltyStep_eq: "penaltyStep pm po p n = n + penaltyOf pm po p"
  by (simp add: penaltyStep_def penaltyOf_def split: option.splits)

lemma sumPeople_eq:
  "sumPeople pm po ps (n, c) =
     (n + (\<Sum>p\<leftarrow>ps. penaltyOf pm po p), c + (\<Sum>p\<leftarrow>ps. satisfiedPrefs pm p))"
proof (induction ps arbitrary: n c)
  case Nil
  show ?case by simp
next
  case (Cons p ps)
  show ?case
    by (simp add: Cons.IH sumPrefs_eq satisfiedPrefs_def penaltyStep_eq [of pm po p n])
qed

lemma countPeople_eq:
  "countPeople pm po ps (n, c) =
     (n + (\<Sum>p\<leftarrow>ps. penaltyOf pm po p), c + (\<Sum>p\<leftarrow>ps. hasSatisfiedPref pm p))"
proof (induction ps arbitrary: n c)
  case Nil
  show ?case by simp
next
  case (Cons p ps)
  show ?case
    by (simp add: Cons.IH countPrefs_eq hasSatisfiedPref_def penaltyStep_eq [of pm po p n])
qed

lemma sumTables_eq:
  "sumTables h po ts (n, c) = (n + penalties h ts po, c + rawSum h ts)"
  by (induction ts arbitrary: n c)
    (simp_all add: penalties_def rawSum_def sumPeople_eq tablePenalties_def tableSum_def)

lemma countTables_eq:
  "countTables h po ts (n, c) = (n + penalties h ts po, c + rawCount h ts)"
  by (induction ts arbitrary: n c)
    (simp_all add: penalties_def rawCount_def countPeople_eq tablePenalties_def tableCount_def)

lemma sumFunction_eq:
  "sumFunction h a po = (if penalties h a po > 0 then - penalties h a po else rawSum h a)"
  by (simp add: sumFunction_def sumTables_eq)

lemma countFunction_eq:
  "countFunction h a po = (if penalties h a po > 0 then - penalties h a po else rawCount h a)"
  by (simp add: countFunction_def countTables_eq)

lemma penaltyOf_agrees:
  "peopleMapAgrees h t \<Longrightarrow>
     penaltyOf (mapOf h (peopleMap t)) po p = (if violates h po t p then 1 else 0)"
  by (simp add: penaltyOf_def penaltyStep_def violates_def peopleMapAgrees_def goLookup_def
      split: option.splits)

lemma sum_list_if_filter: "(\<Sum>x\<leftarrow>xs. if P x then 1 else 0) = int (length (filter P xs))"
  by (induction xs) auto

lemma tablePenalties_agrees:
  "peopleMapAgrees h t \<Longrightarrow>
     tablePenalties h po t = int (length (filter (violates h po t) (occupants h t)))"
  by (simp add: tablePenalties_def penaltyOf_agrees sum_list_if_filter occupants_def)

lemma penalties_violations:
  "\<forall>t\<in>set a. peopleMapAgrees h t \<Longrightarrow> penalties h a po = violations h a po"
  by (induction a) (simp_all add: penalties_def violations_def tablePenalties_agrees)

lemma penaltyOf_nonneg: "0 \<le> penaltyOf pm po p"
  by (simp add: penaltyOf_def penaltyStep_def split: option.splits)

lemma hasSatisfied_nonneg: "0 \<le> hasSatisfiedPref pm p"
  by (simp add: hasSatisfiedPref_def)

lemma hasSatisfied_le: "hasSatisfiedPref pm p \<le> satisfiedPrefs pm p"
proof (cases "\<exists>x\<in>set (Preferences p). goLookup pm x")
  case True
  then have "filter (goLookup pm) (Preferences p) \<noteq> []"
    by (simp add: filter_empty_conv)
  then have "0 < length (filter (goLookup pm) (Preferences p))" by blast
  then have "1 \<le> int (length (filter (goLookup pm) (Preferences p)))" by linarith
  with True show ?thesis by (simp add: hasSatisfiedPref_def satisfiedPrefs_def)
next
  case False
  then show ?thesis by (simp add: hasSatisfiedPref_def satisfiedPrefs_def)
qed

lemma satisfied_le_prefs: "satisfiedPrefs pm p \<le> int (length (Preferences p))"
  by (simp add: satisfiedPrefs_def)

lemma tablePenalties_nonneg: "0 \<le> tablePenalties h po t"
  unfolding tablePenalties_def by (rule sum_list_nonneg) (auto simp: penaltyOf_nonneg)

lemma tableCount_nonneg: "0 \<le> tableCount h t"
  unfolding tableCount_def by (rule sum_list_nonneg) (auto simp: hasSatisfied_nonneg)

lemma tableCount_le_tableSum: "tableCount h t \<le> tableSum h t"
  unfolding tableCount_def tableSum_def by (rule sum_list_mono) (rule hasSatisfied_le)

lemma tableSum_le_tablePrefs: "tableSum h t \<le> tablePrefs h t"
  unfolding tablePrefs_def tableSum_def by (rule sum_list_mono) (rule satisfied_le_prefs)

lemma penalties_nonneg: "0 \<le> penalties h a po"
  unfolding penalties_def by (rule sum_list_nonneg) (auto simp: tablePenalties_nonneg)

lemma rawCount_nonneg: "0 \<le> rawCount h a"
  unfolding rawCount_def by (rule sum_list_nonneg) (auto simp: tableCount_nonneg)

lemma rawCount_le_rawSum: "rawCount h a \<le> rawSum h a"
  unfolding rawCount_def rawSum_def by (rule sum_list_mono) (rule tableCount_le_tableSum)

lemma getTotalPrefs_eq: "getTotalPrefs h a = (\<Sum>t\<leftarrow>a. tablePrefs h t)"
  by (induction a) (simp_all add: tablePrefs_def)

lemma rawSum_le_totalPrefs: "rawSum h a \<le> getTotalPrefs h a"
  unfolding rawSum_def getTotalPrefs_eq by (rule sum_list_mono) (rule tableSum_le_tablePrefs)

lemma rawSum_nonneg: "0 \<le> rawSum h a"
  using rawCount_nonneg [of h a] rawCount_le_rawSum [of h a] by linarith

lemma noOfPenalties_eq: "noOfPenalties h a po = penalties h a po"
  by (simp add: noOfPenalties_def sumTables_eq)

lemma penaltyOf_le_one: "penaltyOf pm po p \<le> 1"
  by (simp add: penaltyOf_def penaltyStep_def split: option.splits)

lemma tablePenalties_le_people:
  "tablePenalties h po t \<le> int (length (sliceElems h (people t)))"
proof -
  have "tablePenalties h po t \<le> (\<Sum>p\<leftarrow>sliceElems h (people t). 1)"
    unfolding tablePenalties_def by (rule sum_list_mono) (rule penaltyOf_le_one)
  then show ?thesis by (simp add: sum_list_triv)
qed

lemmas ex_defs = exA_def exB_def exC_def exD_def exHeap_def exTable_def exTogether_def
  exApart_def exPlusOnes_def

lemma ex_agrees:
  "peopleMapAgrees exHeap (exTable 0)" "peopleMapAgrees exHeap (exTable 1)"
  "peopleMapAgrees exHeap (exTable 2)" "peopleMapAgrees exHeap (exTable 3)"
  by (auto simp: peopleMapAgrees_def seatedWith_def occupants_def sliceElems_def mapOf_def
      ex_defs fun_eq_iff)

lemma ex_violations:
  "violations exHeap exApart exPlusOnes = 1" "violations exHeap exTogether exPlusOnes = 0"
  by (simp_all add: violations_def violates_def seatedWith_def occupants_def sliceElems_def ex_defs)

section \<open>Companion violations\<close>

text \<open>
  In an assignment whose membership sets agree with its seats and in which at least one
  person is apart from a declared companion, \<open>sumFunction\<close> and \<open>countFunction\<close> both
  return the negated number of violations, whatever preferences are satisfied. The value
  is negative, and below the value either function gives to any such assignment without
  violations, which is at least \<open>0\<close>.
\<close>

lemma override_where_maps_agree:
  assumes "\<forall>t\<in>set a. peopleMapAgrees h t" and "0 < violations h a po"
  shows "sumFunction h a po = - violations h a po
       \<and> countFunction h a po = - violations h a po
       \<and> sumFunction h a po < 0 \<and> countFunction h a po < 0
       \<and> (\<forall>h' b. (\<forall>t\<in>set b. peopleMapAgrees h' t) \<longrightarrow> violations h' b po = 0 \<longrightarrow>
             0 \<le> sumFunction h' b po \<and> sumFunction h a po < sumFunction h' b po
           \<and> 0 \<le> countFunction h' b po \<and> countFunction h a po < countFunction h' b po)"
proof -
  have pen: "penalties h a po = violations h a po"
    using assms(1) by (rule penalties_violations)
  have s: "sumFunction h a po = - violations h a po"
    using assms(2) by (simp add: sumFunction_eq pen)
  have c: "countFunction h a po = - violations h a po"
    using assms(2) by (simp add: countFunction_eq pen)
  have other: "0 \<le> sumFunction h' b po \<and> 0 \<le> countFunction h' b po"
    if "\<forall>t\<in>set b. peopleMapAgrees h' t" and "violations h' b po = 0" for h' b
  proof -
    have "penalties h' b po = 0" using that by (simp add: penalties_violations)
    then show ?thesis
      by (simp add: sumFunction_eq countFunction_eq rawSum_nonneg rawCount_nonneg)
  qed
  show ?thesis using s c assms(2) other by force
qed

lemmas four_defs = fourPeople_def fourTables_def fourHeap_def fourRand_def fourSeated_def
  fourSeatedHeap_def fourPlusOnes_def exA_def exB_def exC_def exD_def

lemma shuffleFrom_fixed:
  assumes "i < slen ppl" and "intDraws r = i # xs"
  shows "shuffleFrom (Suc n) i ppl (r, h) = shuffleFrom n (Suc i) ppl (r\<lparr>intDraws := xs\<rparr>, h)"
proof -
  have j: "Intn (int i + 1) r = Inr (i, r\<lparr>intDraws := xs\<rparr>)"
    using assms(2) by (simp add: Intn_def nat_add_distrib)
  have rd: "indexRead h ppl i = Inr (arrays h (sbase ppl) ! (soff ppl + i))"
    using assms(1) by (simp add: indexRead_def)
  have wr: "indexWrite h ppl i (arrays h (sbase ppl) ! (soff ppl + i)) = Inr h"
    using assms(1) by (simp add: indexWrite_def)
  show ?thesis by (simp add: j rd wr andThen_def)
qed

lemma four_shuffle:
  "shuffleFrom (slen fourPeople) 0 fourPeople (fourRand, fourHeap) =
     Inr (\<lparr>intDraws = [], floatDraws = []\<rparr>, fourHeap)"
proof -
  have len: "slen fourPeople = Suc (Suc (Suc (Suc 0)))" by (simp add: fourPeople_def)
  have "shuffleFrom (Suc (Suc (Suc (Suc 0)))) 0 fourPeople (fourRand, fourHeap) =
      shuffleFrom (Suc (Suc (Suc 0))) (Suc 0) fourPeople
        (\<lparr>intDraws = [1, 2, 3], floatDraws = []\<rparr>, fourHeap)"
    by (subst shuffleFrom_fixed [where xs = "[1, 2, 3]"]) (simp_all add: len fourRand_def)
  also have "\<dots> = shuffleFrom (Suc (Suc 0)) (Suc (Suc 0)) fourPeople
        (\<lparr>intDraws = [2, 3], floatDraws = []\<rparr>, fourHeap)"
    by (subst shuffleFrom_fixed [where xs = "[2, 3]"]) (simp_all add: len)
  also have "\<dots> = shuffleFrom (Suc 0) (Suc (Suc (Suc 0))) fourPeople
        (\<lparr>intDraws = [3], floatDraws = []\<rparr>, fourHeap)"
    by (subst shuffleFrom_fixed [where xs = "[3]"]) (simp_all add: len eval_nat_numeral)
  also have "\<dots> = shuffleFrom 0 (Suc (Suc (Suc (Suc 0)))) fourPeople
        (\<lparr>intDraws = [], floatDraws = []\<rparr>, fourHeap)"
    by (subst shuffleFrom_fixed [where xs = "[]"]) (simp_all add: len eval_nat_numeral)
  finally show ?thesis by (simp add: len)
qed

lemma four_fill:
  "fillTables fourPeople fourTables 0 fourHeap = Inr (fourSeated, fourSeatedHeap)"
  by (simp add: fourPeople_def fourTables_def fourSeated_def fourSeatedHeap_def subSlice_def
      sliceElems_def mapAssign_def fourHeap_def zeroPerson_def andThen_def fun_eq_iff)

lemma four_initialisation:
  "randomInitialisation fourPeople fourTables (fourRand, fourHeap) =
     Inr (fourSeated, \<lparr>intDraws = [], floatDraws = []\<rparr>, fourSeatedHeap)"
  by (simp add: randomInitialisation_def four_shuffle four_fill andThen_def)

lemma four_occupants:
  "occupants fourSeatedHeap (fourSeated ! 0) = [exA, exB]"
  "occupants fourSeatedHeap (fourSeated ! 1) = [exC, exD]"
  by (simp_all add: occupants_def sliceElems_def fourSeated_def fourSeatedHeap_def fourHeap_def)

lemma four_violations:
  "violations fourSeatedHeap fourSeated fourPlusOnes = 1"
  "violations fourSeatedHeap fourSeated exPlusOnes = 0"
  by (simp_all add: violations_def violates_def seatedWith_def occupants_def sliceElems_def
      four_defs exPlusOnes_def)

lemma four_penalties:
  "penalties fourSeatedHeap fourSeated fourPlusOnes = 2"
  "penalties fourSeatedHeap fourSeated exPlusOnes = 1"
  by (simp_all add: penalties_def tablePenalties_def penaltyOf_def penaltyStep_def goLookup_def
      mapOf_def sliceElems_def four_defs exPlusOnes_def)

lemma four_scores:
  "sumFunction fourSeatedHeap fourSeated fourPlusOnes = - 2"
  "countFunction fourSeatedHeap fourSeated fourPlusOnes = - 2"
  "sumFunction fourSeatedHeap fourSeated exPlusOnes = - 1"
  "countFunction fourSeatedHeap fourSeated exPlusOnes = - 1"
  by (simp_all add: sumFunction_eq countFunction_eq four_penalties)

text \<open>
  Claim C2. The two functions look a companion up in \<open>peopleMap\<close>, and the assignment that
  \<open>randomInitialisation\<close> returns has membership sets that hold no name of an occupant.
  On the input of four people and two tables of capacity \<open>2\<close> it seats \<open>A\<close> with \<open>B\<close> and
  \<open>C\<close> with \<open>D\<close>. With the companions \<open>B\<close> of \<open>A\<close> and \<open>A\<close> of \<open>C\<close> there is one violation,
  that of \<open>C\<close>, and \<open>sumFunction\<close> and \<open>countFunction\<close> return \<open>-2\<close>, not \<open>-1\<close>: they count
  \<open>A\<close> as well, who sits with \<open>B\<close>. With the one companion \<open>B\<close> of \<open>A\<close> there is no
  violation, and both return \<open>-1\<close>, a negative score.
\<close>

theorem stale_map_miscounts_violations:
  "randomInitialisation fourPeople fourTables (fourRand, fourHeap) =
     Inr (fourSeated, \<lparr>intDraws = [], floatDraws = []\<rparr>, fourSeatedHeap)
   \<and> occupants fourSeatedHeap (fourSeated ! 0) = [exA, exB]
   \<and> occupants fourSeatedHeap (fourSeated ! 1) = [exC, exD]
   \<and> violations fourSeatedHeap fourSeated fourPlusOnes = 1
   \<and> sumFunction fourSeatedHeap fourSeated fourPlusOnes = - 2
   \<and> countFunction fourSeatedHeap fourSeated fourPlusOnes = - 2
   \<and> violations fourSeatedHeap fourSeated exPlusOnes = 0
   \<and> sumFunction fourSeatedHeap fourSeated exPlusOnes = - 1
   \<and> countFunction fourSeatedHeap fourSeated exPlusOnes = - 1"
  using four_occupants by (simp add: four_initialisation four_violations four_scores)

section \<open>The hybrid function\<close>

lemma length_sliceElems: "sliceAllocated h s \<Longrightarrow> length (sliceElems h s) = slen s"
  by (auto simp: sliceAllocated_def sliceElems_def)

lemma getNoOfPeople_nonneg: "0 \<le> getNoOfPeople h a"
  by (induction a) simp_all

lemma penalties_le_people:
  assumes "\<forall>t\<in>set a. tableAllocated h t"
  shows "penalties h a po \<le> getNoOfPeople h a"
  using assms
proof (induction a)
  case Nil
  show ?case by (simp add: penalties_def)
next
  case (Cons t ts)
  then have ih: "penalties h ts po \<le> getNoOfPeople h ts" by (simp add: penalties_def)
  from Cons.prems have "length (sliceElems h (people t)) = slen (people t)"
    by (simp add: tableAllocated_def length_sliceElems)
  with tablePenalties_le_people [of h po t] have "tablePenalties h po t \<le> int (slen (people t))"
    by simp
  with ih show ?case by (simp add: penalties_def)
qed

lemma getNoOfPeople_seated:
  "\<forall>t\<in>set a. tableAllocated h t \<Longrightarrow> getNoOfPeople h a = int (length (seated h a))"
  by (induction a) (simp_all add: seated_def occupants_def tableAllocated_def length_sliceElems)

lemma getTotalPrefs_seated:
  "getTotalPrefs h a = (\<Sum>p\<leftarrow>seated h a. int (length (Preferences p)))"
  by (induction a) (simp_all add: seated_def occupants_def)

lemma sum_list_map_mset:
  fixes f :: "'a \<Rightarrow> int"
  shows "mset xs = mset ys \<Longrightarrow> sum_list (map f xs) = sum_list (map f ys)"
proof -
  assume eq: "mset xs = mset ys"
  have "sum_list (map f xs) = sum_mset (image_mset f (mset xs))"
    by (metis mset_map sum_mset_sum_list)
  also have "\<dots> = sum_mset (image_mset f (mset ys))" by (simp add: eq)
  also have "\<dots> = sum_list (map f ys)"
    by (metis mset_map sum_mset_sum_list)
  finally show ?thesis .
qed

lemma same_people_same_bound:
  assumes "\<forall>t\<in>set a. tableAllocated h t" and "\<forall>t\<in>set b. tableAllocated h' t"
    and "mset (seated h a) = mset (seated h' b)"
  shows "getNoOfPeople h a = getNoOfPeople h' b" and "getTotalPrefs h a = getTotalPrefs h' b"
proof -
  have "length (seated h a) = length (seated h' b)"
    using assms(3) by (rule mset_eq_length)
  then show "getNoOfPeople h a = getNoOfPeople h' b"
    using assms(1,2) by (simp add: getNoOfPeople_seated)
  show "getTotalPrefs h a = getTotalPrefs h' b"
    unfolding getTotalPrefs_seated using assms(3) by (rule sum_list_map_mset)
qed

lemma ex_allocated:
  "tableAllocated exHeap (exTable 0)" "tableAllocated exHeap (exTable 1)"
  "tableAllocated exHeap (exTable 2)" "tableAllocated exHeap (exTable 3)"
  by (simp_all add: tableAllocated_def sliceAllocated_def ex_defs)

lemma ex_scores:
  "sumFunction exHeap exTogether Map.empty = 3" "countFunction exHeap exTogether Map.empty = 3"
  "sumFunction exHeap exApart Map.empty = 0" "countFunction exHeap exApart Map.empty = 0"
  "hybridFunction exHeap exTogether Map.empty = 15" "hybridFunction exHeap exApart Map.empty = 0"
  by (simp_all add: hybridFunction_def sumFunction_def countFunction_def penaltyStep_def
      goLookup_def mapOf_def sliceElems_def ex_defs)

lemma ex_penalised:
  "sumFunction exHeap exApart exPlusOnes = - 1" "countFunction exHeap exApart exPlusOnes = - 1"
  "hybridFunction exHeap exApart exPlusOnes = - 5"
  by (simp_all add: hybridFunction_def sumFunction_def countFunction_def penaltyStep_def
      goLookup_def mapOf_def sliceElems_def ex_defs)

text \<open>
  Claim C3. For two assignments of the same people, both without a companion violation,
  \<open>hybridFunction\<close> is \<open>countFunction * M + sumFunction\<close> with the same
  \<open>M = max noOfPeople totalPrefs\<close> for both, and a greater count gives a greater hybrid
  value whatever the two sums are.
\<close>

theorem hybrid_count_first:
  assumes "\<forall>t\<in>set a. tableAllocated h t \<and> peopleMapAgrees h t"
    and "\<forall>t\<in>set b. tableAllocated h' t \<and> peopleMapAgrees h' t"
    and "violations h a po = 0" and "violations h' b po = 0"
    and "mset (seated h a) = mset (seated h' b)"
  shows "hybridFunction h a po =
           countFunction h a po * max (getNoOfPeople h a) (getTotalPrefs h a) + sumFunction h a po
       \<and> hybridFunction h' b po =
           countFunction h' b po * max (getNoOfPeople h a) (getTotalPrefs h a) + sumFunction h' b po
       \<and> (countFunction h a po > countFunction h' b po \<longrightarrow>
            hybridFunction h a po > hybridFunction h' b po)"
proof -
  define M where "M = max (getNoOfPeople h a) (getTotalPrefs h a)"
  have M': "max (getNoOfPeople h' b) (getTotalPrefs h' b) = M"
    using same_people_same_bound [of a h b h'] assms(1,2,5) by (simp add: M_def)
  have ha: "hybridFunction h a po = countFunction h a po * M + sumFunction h a po"
    by (simp add: hybridFunction_def M_def Let_def)
  have hb: "hybridFunction h' b po = countFunction h' b po * M + sumFunction h' b po"
    by (simp add: hybridFunction_def M' Let_def)
  have pa: "penalties h a po = 0" using assms(1,3) by (simp add: penalties_violations)
  have pb: "penalties h' b po = 0" using assms(2,4) by (simp add: penalties_violations)
  have ca: "countFunction h a po = rawCount h a" and sa: "sumFunction h a po = rawSum h a"
    by (simp_all add: countFunction_eq sumFunction_eq pa)
  have cb: "countFunction h' b po = rawCount h' b" and sb: "sumFunction h' b po = rawSum h' b"
    by (simp_all add: countFunction_eq sumFunction_eq pb)
  have order: "hybridFunction h a po > hybridFunction h' b po"
    if gt: "countFunction h a po > countFunction h' b po"
  proof -
    have d: "1 \<le> rawCount h a - rawCount h' b" using gt ca cb by simp
    have M0: "0 \<le> M" using getNoOfPeople_nonneg [of h a] by (simp add: M_def)
    have "1 * M \<le> (rawCount h a - rawCount h' b) * M"
      using d M0 by (rule mult_right_mono)
    then have step: "rawCount h' b * M + M \<le> rawCount h a * M"
      by (simp add: algebra_simps)
    have "rawSum h' b \<le> getTotalPrefs h' b" by (rule rawSum_le_totalPrefs)
    then have sbM: "rawSum h' b \<le> M" using M' by linarith
    have "1 \<le> rawSum h a"
      using d rawCount_nonneg [of h' b] rawCount_le_rawSum [of h a] by linarith
    then show ?thesis using step sbM by (simp add: ha hb ca cb sa sb)
  qed
  show ?thesis using ha hb order by (simp add: M_def)
qed

text \<open>The theorem of C3 at the two seatings of the example.\<close>

theorem hybrid_count_first_witness:
  "violations exHeap exTogether Map.empty = 0 \<and> violations exHeap exApart Map.empty = 0
   \<and> mset (seated exHeap exTogether) = mset (seated exHeap exApart)
   \<and> countFunction exHeap exTogether Map.empty > countFunction exHeap exApart Map.empty
   \<and> hybridFunction exHeap exTogether Map.empty = 3 * 4 + 3
   \<and> hybridFunction exHeap exTogether Map.empty > hybridFunction exHeap exApart Map.empty"
proof -
  have a: "\<forall>t\<in>set exTogether. tableAllocated exHeap t \<and> peopleMapAgrees exHeap t"
    using ex_agrees ex_allocated by (simp add: exTogether_def)
  have b: "\<forall>t\<in>set exApart. tableAllocated exHeap t \<and> peopleMapAgrees exHeap t"
    using ex_agrees ex_allocated by (simp add: exApart_def)
  have va: "violations exHeap exTogether Map.empty = 0"
    by (simp add: violations_def violates_def)
  have vb: "violations exHeap exApart Map.empty = 0"
    by (simp add: violations_def violates_def)
  have m: "mset (seated exHeap exTogether) = mset (seated exHeap exApart)"
    by (simp add: seated_def occupants_def sliceElems_def ex_defs)
  have n: "getNoOfPeople exHeap exTogether = 4" and p: "getTotalPrefs exHeap exTogether = 3"
    by (simp_all add: sliceElems_def ex_defs)
  from hybrid_count_first [OF a b va vb m]
  show ?thesis using va vb m by (simp add: ex_scores n p)
qed

text \<open>
  Claim C7, as amended. Let the counter \<open>noOfPenalties\<close> of \<open>sumFunction\<close> and
  \<open>countFunction\<close>, the number of people whose declared companion is not in the \<open>peopleMap\<close>
  of their table, be positive. Both functions return \<open>- noOfPenalties\<close>, and
  \<open>hybridFunction\<close> does not: it combines their two overridden values as it combines the
  scores, which gives \<open>- noOfPenalties * (M + 1)\<close> with \<open>M\<close> the greater of the number of
  people and the number of preferences. That value is negative, and below
  \<open>- noOfPenalties\<close> when the tables are allocated. Where the membership sets agree with the
  seats, \<open>noOfPenalties\<close> is the number of companion violations.
\<close>

theorem hybrid_scales_penalty_counter:
  assumes "0 < noOfPenalties h a po"
  shows "fst (countTables h po a (0, 0)) = noOfPenalties h a po
       \<and> sumFunction h a po = - noOfPenalties h a po
       \<and> countFunction h a po = - noOfPenalties h a po
       \<and> hybridFunction h a po =
           - noOfPenalties h a po * (max (getNoOfPeople h a) (getTotalPrefs h a) + 1)
       \<and> hybridFunction h a po < 0
       \<and> ((\<forall>t\<in>set a. tableAllocated h t) \<longrightarrow> hybridFunction h a po < - noOfPenalties h a po)
       \<and> ((\<forall>t\<in>set a. peopleMapAgrees h t) \<longrightarrow> noOfPenalties h a po = violations h a po)"
proof -
  define p where "p = noOfPenalties h a po"
  define M where "M = max (getNoOfPeople h a) (getTotalPrefs h a)"
  have pen: "penalties h a po = p" by (simp add: p_def noOfPenalties_eq)
  from assms have p0: "0 < p" by (simp add: p_def)
  have cnt: "fst (countTables h po a (0, 0)) = p" by (simp add: countTables_eq pen)
  have s: "sumFunction h a po = - p" using p0 by (simp add: sumFunction_eq pen)
  have c: "countFunction h a po = - p" using p0 by (simp add: countFunction_eq pen)
  have M0: "0 \<le> M" using getNoOfPeople_nonneg [of h a] by (simp add: M_def)
  have eq: "hybridFunction h a po = - p * (M + 1)"
    by (simp add: hybridFunction_def Let_def s c M_def algebra_simps)
  have "0 < p * (M + 1)" using p0 M0 by (intro mult_pos_pos) simp_all
  then have neg: "hybridFunction h a po < 0" using eq by simp
  have below: "hybridFunction h a po < - p" if "\<forall>t\<in>set a. tableAllocated h t"
  proof -
    from that have "p \<le> getNoOfPeople h a" unfolding pen [symmetric] by (rule penalties_le_people)
    with p0 have "1 \<le> M" by (simp add: M_def)
    with p0 have "p * 1 < p * (M + 1)" by (intro mult_strict_left_mono) simp_all
    with eq show ?thesis by simp
  qed
  have agree: "p = violations h a po" if "\<forall>t\<in>set a. peopleMapAgrees h t"
    using that pen penalties_violations [of a h po] by simp
  from cnt s c eq neg below agree show ?thesis unfolding p_def M_def by blast
qed

text \<open>The amended statement of C7 at the assignment that \<open>randomInitialisation\<close> returns for
  four people, where the counter is \<open>2\<close> with one violation, and at the example in which
  the membership sets agree with the seats.\<close>

theorem hybrid_scales_penalty_counter_witness:
  "0 < noOfPenalties fourSeatedHeap fourSeated fourPlusOnes
   \<and> noOfPenalties fourSeatedHeap fourSeated fourPlusOnes = 2
   \<and> violations fourSeatedHeap fourSeated fourPlusOnes = 1
   \<and> hybridFunction fourSeatedHeap fourSeated fourPlusOnes = - 2 * (4 + 1)
   \<and> hybridFunction fourSeatedHeap fourSeated fourPlusOnes < - 2
   \<and> 0 < noOfPenalties exHeap exApart exPlusOnes
   \<and> noOfPenalties exHeap exApart exPlusOnes = violations exHeap exApart exPlusOnes
   \<and> hybridFunction exHeap exApart exPlusOnes = - 1 * (4 + 1)"
proof -
  have p: "noOfPenalties fourSeatedHeap fourSeated fourPlusOnes = 2"
    by (simp add: noOfPenalties_eq four_penalties)
  have n: "getNoOfPeople fourSeatedHeap fourSeated = 4"
    and q: "getTotalPrefs fourSeatedHeap fourSeated = 3"
    by (simp_all add: sliceElems_def four_defs)
  have al: "\<forall>t\<in>set fourSeated. tableAllocated fourSeatedHeap t"
    by (simp add: tableAllocated_def sliceAllocated_def four_defs)
  have p0: "0 < noOfPenalties fourSeatedHeap fourSeated fourPlusOnes" by (simp add: p)
  have ag: "\<forall>t\<in>set exApart. peopleMapAgrees exHeap t"
    using ex_agrees by (simp add: exApart_def)
  have e: "noOfPenalties exHeap exApart exPlusOnes = 1"
    using ag by (simp add: noOfPenalties_eq penalties_violations ex_violations)
  have e0: "0 < noOfPenalties exHeap exApart exPlusOnes" by (simp add: e)
  have en: "getNoOfPeople exHeap exApart = 4" and ep: "getTotalPrefs exHeap exApart = 3"
    by (simp_all add: sliceElems_def ex_defs)
  from hybrid_scales_penalty_counter [OF p0] al
  have one: "hybridFunction fourSeatedHeap fourSeated fourPlusOnes = - 2 * (4 + 1)"
    "hybridFunction fourSeatedHeap fourSeated fourPlusOnes < - 2"
    by (simp_all add: p n q)
  from hybrid_scales_penalty_counter [OF e0] ag
  have two: "noOfPenalties exHeap exApart exPlusOnes = violations exHeap exApart exPlusOnes"
    "hybridFunction exHeap exApart exPlusOnes = - 1 * (4 + 1)"
    by (simp_all add: e en ep)
  from p0 p one e0 two show ?thesis by (simp add: four_violations)
qed

text \<open>Claim C7 as it was stated fails at the example: one violation, the other two
  functions return \<open>-1\<close>, the hybrid function returns \<open>-5\<close>.\<close>

theorem hybrid_override_counterexample:
  "peopleMapAgrees exHeap (exTable 2) \<and> peopleMapAgrees exHeap (exTable 3)
   \<and> violations exHeap exApart exPlusOnes = 1
   \<and> sumFunction exHeap exApart exPlusOnes = - 1
   \<and> countFunction exHeap exApart exPlusOnes = - 1
   \<and> hybridFunction exHeap exApart exPlusOnes = - 5
   \<and> hybridFunction exHeap exApart exPlusOnes \<noteq> - violations exHeap exApart exPlusOnes"
  using ex_agrees(3,4) by (simp add: ex_violations ex_penalised)

section \<open>The exchange pass\<close>

lemma exchangeFrom_length:
  "exchangeFrom j (sols, costs) = (sols', costs') \<Longrightarrow>
     length sols' = length sols \<and> length costs' = length costs"
proof (induction j arbitrary: sols costs)
  case 0
  then show ?case by simp
next
  case (Suc j)
  show ?case
  proof (cases "costs ! Suc j > costs ! j")
    case True
    with Suc.prems have "exchangeFrom j (sols[Suc j := sols ! j, j := sols ! Suc j],
        costs[Suc j := costs ! j, j := costs ! Suc j]) = (sols', costs')" by simp
    from Suc.IH [OF this] show ?thesis by simp
  next
    case False
    with Suc.prems have "exchangeFrom j (sols, costs) = (sols', costs')" by simp
    from Suc.IH [OF this] show ?thesis .
  qed
qed

lemma zip_swap:
  "zip (xs[i := xs ! j, j := xs ! i]) (ys[i := ys ! j, j := ys ! i]) =
     (zip xs ys)[i := (xs ! j, ys ! j), j := (xs ! i, ys ! i)]"
  by (simp add: zip_update)

lemma mset_zip_swap:
  assumes "i < length xs" "j < length xs" "length ys = length xs"
  shows "mset (zip (xs[i := xs ! j, j := xs ! i]) (ys[i := ys ! j, j := ys ! i])) = mset (zip xs ys)"
proof -
  have "zip (xs[i := xs ! j, j := xs ! i]) (ys[i := ys ! j, j := ys ! i]) =
        (zip xs ys)[i := zip xs ys ! j, j := zip xs ys ! i]"
    using assms by (simp add: zip_swap)
  moreover have "mset ((zip xs ys)[i := zip xs ys ! j, j := zip xs ys ! i]) = mset (zip xs ys)"
    using assms by (intro mset_swap) simp_all
  ultimately show ?thesis by simp
qed

lemma exchangeFrom_mset:
  "j < length costs \<Longrightarrow> length sols = length costs \<Longrightarrow>
   exchangeFrom j (sols, costs) = (sols', costs') \<Longrightarrow>
     mset (zip sols' costs') = mset (zip sols costs)"
proof (induction j arbitrary: sols costs)
  case 0
  then show ?case by simp
next
  case (Suc j)
  show ?case
  proof (cases "costs ! Suc j > costs ! j")
    case True
    let ?s = "sols[Suc j := sols ! j, j := sols ! Suc j]"
    let ?c = "costs[Suc j := costs ! j, j := costs ! Suc j]"
    from True Suc.prems have run: "exchangeFrom j (?s, ?c) = (sols', costs')" by simp
    have "mset (zip sols' costs') = mset (zip ?s ?c)"
      using Suc.prems(1,2) by (intro Suc.IH [OF _ _ run]) simp_all
    also have "\<dots> = mset (zip sols costs)"
      using Suc.prems(1,2) by (intro mset_zip_swap) simp_all
    finally show ?thesis .
  next
    case False
    with Suc.prems have run: "exchangeFrom j (sols, costs) = (sols', costs')" by simp
    show ?thesis using Suc.prems(1,2) by (intro Suc.IH [OF _ _ run]) simp_all
  qed
qed

lemma Max_insert_below:
  fixes x :: int
  assumes "finite A" and "x \<le> y"
  shows "Max (insert x (insert y A)) = Max (insert y A)"
proof -
  have "y \<le> Max (insert y A)" using assms(1) by simp
  then have "max x (Max (insert y A)) = Max (insert y A)" using assms(2) by simp
  then show ?thesis using assms(1) by simp
qed

lemma exchangeFrom_head:
  "j < length costs \<Longrightarrow> exchangeFrom j (sols, costs) = (sols', costs') \<Longrightarrow>
     costs' ! 0 = Max (set (take (Suc j) costs))"
proof (induction j arbitrary: sols costs)
  case 0
  from 0(1) have "take (Suc 0) costs = [costs ! 0]"
    by (cases costs) simp_all
  with 0 show ?case by simp
next
  case (Suc j)
  have j: "j < length costs" and sj: "Suc j < length costs" using Suc.prems(1) by simp_all
  have full: "take (Suc (Suc j)) costs = take j costs @ [costs ! j, costs ! Suc j]"
    using j sj by (simp add: take_Suc_conv_app_nth)
  show ?case
  proof (cases "costs ! Suc j > costs ! j")
    case True
    let ?s = "sols[Suc j := sols ! j, j := sols ! Suc j]"
    let ?c = "costs[Suc j := costs ! j, j := costs ! Suc j]"
    from True Suc.prems have run: "exchangeFrom j (?s, ?c) = (sols', costs')" by simp
    have "costs' ! 0 = Max (set (take (Suc j) ?c))"
      using j by (intro Suc.IH [OF _ run]) simp
    moreover have "take (Suc j) ?c = take j costs @ [costs ! Suc j]"
      using j sj by (simp add: take_Suc_conv_app_nth)
    ultimately have "costs' ! 0 = Max (insert (costs ! Suc j) (set (take j costs)))" by simp
    also have "\<dots> = Max (insert (costs ! j) (insert (costs ! Suc j) (set (take j costs))))"
      by (rule Max_insert_below [symmetric]) (use True in simp_all)
    finally show ?thesis by (simp add: full insert_commute)
  next
    case False
    with Suc.prems have run: "exchangeFrom j (sols, costs) = (sols', costs')" by simp
    have "costs' ! 0 = Max (set (take (Suc j) costs))"
      using j by (intro Suc.IH [OF _ run])
    also have "take (Suc j) costs = take j costs @ [costs ! j]"
      using j by (simp add: take_Suc_conv_app_nth)
    finally have "costs' ! 0 = Max (insert (costs ! j) (set (take j costs)))" by simp
    also have "\<dots> = Max (insert (costs ! Suc j) (insert (costs ! j) (set (take j costs))))"
      by (rule Max_insert_below [symmetric]) (use False in simp_all)
    finally show ?thesis by (simp add: full insert_commute)
  qed
qed

text \<open>
  Claim C9. On a ladder of \<open>K \<ge> 1\<close> levels the sweep from index \<open>K - 1\<close> down to \<open>1\<close>
  leaves at index \<open>0\<close> the greatest of the costs the levels held before the sweep. The
  pairs of solution and cost are permuted, so the solution at index \<open>0\<close> is the one that
  cost belongs to.
\<close>

theorem exchange_best_at_level_zero:
  assumes "1 \<le> K" and "length sols = nat K" and "length costs = nat K"
    and "exchange K (sols, costs) = (sols', costs')"
  shows "costs' ! 0 = Max (set costs)
       \<and> length sols' = nat K \<and> length costs' = nat K
       \<and> mset (zip sols' costs') = mset (zip sols costs)"
proof -
  have run: "exchangeFrom (nat (K - 1)) (sols, costs) = (sols', costs')"
    using assms(4) by (simp add: exchange_def)
  have lt: "nat (K - 1) < length costs" using assms(1,3) by simp
  have "Suc (nat (K - 1)) = length costs" using assms(1,3) by simp
  then have "take (Suc (nat (K - 1))) costs = costs" by simp
  with exchangeFrom_head [OF lt run] have "costs' ! 0 = Max (set costs)" by simp
  moreover have "mset (zip sols' costs') = mset (zip sols costs)"
    using lt assms(2,3) run by (intro exchangeFrom_mset) simp_all
  ultimately show ?thesis
    using exchangeFrom_length [OF run] assms(2,3) by simp
qed

text \<open>The theorem of C9 on a ladder of four levels; the levels \<open>1\<close> to \<open>3\<close> end up with the
  costs \<open>0, 1, 2\<close>, the worst of them nearest to the cold end.\<close>

theorem exchange_best_at_level_zero_witness:
  "(1::int) \<le> 4
   \<and> exchange 4 ([exTogether, exApart, exApart, exTogether], [0, 1, 3, 2]) =
       ([exApart, exTogether, exApart, exTogether], [3, 0, 1, 2])
   \<and> [3, 0, 1, 2] ! 0 = Max (set [0, 1, 3, (2::int)])
   \<and> \<not> sorted (rev (tl [3, 0, 1, (2::int)]))"
proof -
  have run: "exchange 4 ([exTogether, exApart, exApart, exTogether], [0, 1, 3, 2]) =
       ([exApart, exTogether, exApart, exTogether], [3, 0, 1, 2])"
    by (simp add: exchange_def eval_nat_numeral)
  from exchange_best_at_level_zero [OF _ _ _ run]
  have "[3, 0, 1, 2] ! 0 = Max (set [0, 1, 3, (2::int)])" by simp
  with run show ?thesis by simp
qed

section \<open>The acceptance rule of the chain iterator\<close>

lemma andThen_Inr [simp]: "andThen (Inr x) f = f x"
  by (simp add: andThen_def)

lemma andThen_Inl [simp]: "andThen (Inl e) f = Inl e"
  by (simp add: andThen_def)

lemma Float64_range: "0 \<le> fst (Float64 r) \<and> fst (Float64 r) < 1"
  by (simp add: Float64_def split: list.splits)

text \<open>
  Claim C4. One iteration of \<open>annealerInternalIterator\<close>, for a neighbour
  \<open>newCandidateSolution\<close> that \<open>getNeighbour\<close> returned and a temperature other than \<open>0\<close>:
  the state after the iteration is the neighbour and its cost exactly when the cost is
  greater than the current one, or it is not and the draw \<open>u\<close> of \<open>rand.Float64\<close>, a value
  of \<open>[0, 1)\<close>, is below \<open>exp ((newCandidateCost - updatedCost) / temperature)\<close>; in every
  other case the state is the current solution and cost, unchanged. The draw is taken only
  when the neighbour is not better.
\<close>

theorem metropolis_acceptance:
  assumes "temperature \<noteq> 0"
    and "getNeighbour updatedSolution (swapCount P) st = Inr (newCandidateSolution, r1, h1)"
    and "newCandidateCost = costFunction P h1 newCandidateSolution (plusOnes P)"
    and "u = fst (Float64 r1)"
  shows "iteratorStep P temperature (updatedSolution, updatedCost) st =
           Inr (if newCandidateCost > updatedCost
                   \<or> (newCandidateCost \<le> updatedCost
                       \<and> u < exp (real_of_int (newCandidateCost - updatedCost) / temperature))
                then (newCandidateSolution, newCandidateCost)
                else (updatedSolution, updatedCost),
                if newCandidateCost > updatedCost then r1 else snd (Float64 r1),
                h1)
         \<and> 0 \<le> u \<and> u < 1"
  using assms(2,3,4) Float64_range [of r1]
  by (simp add: iteratorStep_def acceptanceProbability_def Let_def split: prod.splits)

lemma ex_copy:
  "copyAssignment exTogether exHeap = Inr ([exTable 4, exTable 5],
     exHeap\<lparr>arrays := (arrays exHeap)(4 := [exA, exB], 5 := [exC, exD]),
       maps := (maps exHeap)(4 := [''A'' \<mapsto> True, ''B'' \<mapsto> True], 5 := [''C'' \<mapsto> True, ''D'' \<mapsto> True]),
       nextArray := 6, nextMap := 6\<rparr>)"
  by (simp add: copyTable_def goCopy_def sliceElems_def mapOf_def exHeap_def exTable_def exTogether_def)

lemma ex_neighbour:
  "getNeighbour exTogether 1 (exRand, exHeap) =
     Inr ([exTable 4, exTable 5], \<lparr>intDraws = [], floatDraws = [1 / 2]\<rparr>, exNeighbourHeap)"
  unfolding getNeighbour_def
  apply (simp add: ex_copy Let_def)
  apply (simp add: exTogether_def swapPeople_def Intn_def exRand_def tableAt_def exTable_def indexRead_def
      indexWrite_def mapDelete_def mapAssign_def Let_def exNeighbourHeap_def)
  apply (auto simp: fun_eq_iff exHeap_def exA_def exB_def exC_def exD_def)
  done

lemma ex_neighbour_cost: "sumFunction exNeighbourHeap [exTable 4, exTable 5] Map.empty = 0"
  by (simp add: sumFunction_def penaltyStep_def goLookup_def mapOf_def sliceElems_def
      exNeighbourHeap_def ex_defs)

lemma exp_minus_three: "exp (- 3 :: real) < 1 / 2"
proof -
  have "1 + (3::real) \<le> exp 3" by (rule exp_ge_add_one_self)
  then have "(2::real) < exp 3" by simp
  then have "1 / exp (3::real) < 1 / 2"
    by (simp add: field_simps)
  then show ?thesis by (simp add: exp_minus inverse_eq_divide)
qed

text \<open>The theorem of C4 at the example: the neighbour costs \<open>0\<close>, the current solution \<open>3\<close>,
  the draw \<open>1/2\<close> is not below \<open>exp (-3)\<close>, and the current state is kept.\<close>

theorem metropolis_acceptance_witness:
  "(1::real) \<noteq> 0
   \<and> getNeighbour exTogether (swapCount exParams) (exRand, exHeap) =
       Inr ([exTable 4, exTable 5], \<lparr>intDraws = [], floatDraws = [1 / 2]\<rparr>, exNeighbourHeap)
   \<and> costFunction exParams exNeighbourHeap [exTable 4, exTable 5] (plusOnes exParams) = 0
   \<and> iteratorStep exParams 1 (exTogether, 3) (exRand, exHeap) =
       Inr ((exTogether, 3), \<lparr>intDraws = [], floatDraws = []\<rparr>, exNeighbourHeap)"
proof -
  have n: "getNeighbour exTogether (swapCount exParams) (exRand, exHeap) =
       Inr ([exTable 4, exTable 5], \<lparr>intDraws = [], floatDraws = [1 / 2]\<rparr>, exNeighbourHeap)"
    by (simp add: exParams_def ex_neighbour)
  have c: "costFunction exParams exNeighbourHeap [exTable 4, exTable 5] (plusOnes exParams) = 0"
    by (simp add: exParams_def ex_neighbour_cost)
  have t: "(1::real) \<noteq> 0" by simp
  from metropolis_acceptance [OF t n c [symmetric] refl, of 3]
  show ?thesis using n c exp_minus_three by (simp add: Float64_def)
qed

section \<open>What copyAssignment builds\<close>

lemma andThen_eq_Inr:
  "andThen m f = Inr y \<longleftrightarrow> (\<exists>x. m = Inr x \<and> f x = Inr y)"
  by (cases m) simp_all

lemma copyTable_eq:
  "copyTable t h =
     (if capacity t < 0 then Inl MakeLenOutOfRange
      else Inr (freshTable (nextArray h) (nextMap h) t,
            h\<lparr>arrays := (arrays h)(nextArray h :=
                   goCopy (replicate (nat (capacity t)) zeroPerson) (sliceElems h (people t))),
               maps := (maps h)(nextMap h := mapOf h (peopleMap t)),
               nextArray := Suc (nextArray h),
               nextMap := Suc (nextMap h)\<rparr>))"
  by (simp add: copyTable_def freshTable_def Let_def)

lemma length_goCopy [simp]: "length (goCopy dst src) = length dst"
  by (simp add: goCopy_def)

lemma goCopy_same_length: "length src = length dst \<Longrightarrow> goCopy dst src = src"
  by (simp add: goCopy_def)

lemma copyAssignment_total:
  "\<forall>t\<in>set a. 0 \<le> capacity t \<Longrightarrow> \<exists>a' h'. copyAssignment a h = Inr (a', h')"
proof (induction a arbitrary: h)
  case Nil
  show ?case by simp
next
  case (Cons t ts)
  from Cons.prems have c: "\<not> capacity t < 0" and rest: "\<forall>t\<in>set ts. 0 \<le> capacity t" by auto
  from c obtain t' h1 where one: "copyTable t h = Inr (t', h1)"
    by (simp add: copyTable_eq)
  from Cons.IH [OF rest, of h1] obtain ts' h2 where "copyAssignment ts h1 = Inr (ts', h2)"
    by blast
  with one show ?case by simp
qed

lemma copyAssignment_Cons:
  assumes "copyAssignment (t # ts) h = Inr (a', h')"
  obtains t' h1 ts' where "copyTable t h = Inr (t', h1)" and "copyAssignment ts h1 = Inr (ts', h')"
    and "a' = t' # ts'"
proof -
  from assms obtain x where x: "copyTable t h = Inr x"
    and r: "(case x of (t', h1) \<Rightarrow> andThen (copyAssignment ts h1) (\<lambda>(ts', h2). Inr (t' # ts', h2))) = Inr (a', h')"
    by (auto simp: andThen_eq_Inr)
  obtain t' h1 where xe: "x = (t', h1)" by (cases x)
  from r xe obtain y where y: "copyAssignment ts h1 = Inr y"
    and r2: "(case y of (ts', h2) \<Rightarrow> Inr (t' # ts', h2)) = (Inr (a', h') :: panic + (table list \<times> heap))"
    by (auto simp: andThen_eq_Inr)
  obtain ts' h2 where ye: "y = (ts', h2)" by (cases y)
  from r2 ye have "a' = t' # ts'" "h2 = h'" by simp_all
  with x xe y ye that show thesis by simp
qed

lemma copyTable_Inr:
  assumes "copyTable t h = Inr (t', h1)"
  shows "0 \<le> capacity t" and "t' = freshTable (nextArray h) (nextMap h) t"
    and "nextArray h1 = Suc (nextArray h)" and "nextMap h1 = Suc (nextMap h)"
    and "arrays h1 = (arrays h)(nextArray h :=
           goCopy (replicate (nat (capacity t)) zeroPerson) (sliceElems h (people t)))"
    and "maps h1 = (maps h)(nextMap h := mapOf h (peopleMap t))"
  using assms by (auto simp: copyTable_eq split: if_splits)

lemma copyAssignment_shape:
  "copyAssignment a h = Inr (a', h') \<Longrightarrow>
     length a' = length a
   \<and> nextArray h' = nextArray h + length a \<and> nextMap h' = nextMap h + length a
   \<and> (\<forall>i<length a. a' ! i = freshTable (nextArray h + i) (nextMap h + i) (a ! i))
   \<and> (\<forall>t\<in>set a. 0 \<le> capacity t)"
proof (induction a arbitrary: h a')
  case Nil
  then show ?case by simp
next
  case (Cons t ts)
  from Cons.prems obtain t' h1 ts' where one: "copyTable t h = Inr (t', h1)"
    and rest: "copyAssignment ts h1 = Inr (ts', h')" and a': "a' = t' # ts'"
    by (rule copyAssignment_Cons)
  note f = copyTable_Inr [OF one]
  from Cons.IH [OF rest] have ih: "length ts' = length ts"
    "nextArray h' = nextArray h1 + length ts" "nextMap h' = nextMap h1 + length ts"
    "\<forall>i<length ts. ts' ! i = freshTable (nextArray h1 + i) (nextMap h1 + i) (ts ! i)"
    "\<forall>t\<in>set ts. 0 \<le> capacity t"
    by simp_all
  have nth: "a' ! i = freshTable (nextArray h + i) (nextMap h + i) ((t # ts) ! i)"
    if "i < length (t # ts)" for i
  proof (cases i)
    case 0
    then show ?thesis by (simp add: a' f(2))
  next
    case (Suc k)
    with that have "k < length ts" by simp
    with ih(4) have "ts' ! k = freshTable (nextArray h1 + k) (nextMap h1 + k) (ts ! k)" by blast
    then show ?thesis by (simp add: a' Suc f(3,4))
  qed
  show ?case using ih(1,2,3,5) f(1,3,4) nth by (simp add: a')
qed

lemma copyAssignment_frame:
  "copyAssignment a h = Inr (a', h') \<Longrightarrow>
     (\<forall>x<nextArray h. arrays h' x = arrays h x) \<and> (\<forall>x<nextMap h. maps h' x = maps h x)"
proof (induction a arbitrary: h a')
  case Nil
  then show ?case by simp
next
  case (Cons t ts)
  from Cons.prems obtain t' h1 ts' where one: "copyTable t h = Inr (t', h1)"
    and rest: "copyAssignment ts h1 = Inr (ts', h')" and a': "a' = t' # ts'"
    by (rule copyAssignment_Cons)
  note f = copyTable_Inr [OF one]
  from Cons.IH [OF rest] have ih: "\<forall>x<nextArray h1. arrays h' x = arrays h1 x"
    "\<forall>x<nextMap h1. maps h' x = maps h1 x" by simp_all
  show ?case using ih by (simp add: f)
qed

lemma sliceElems_cong: "arrays h' (sbase s) = arrays h (sbase s) \<Longrightarrow> sliceElems h' s = sliceElems h s"
  by (simp add: sliceElems_def)

lemma mapOf_cong: "(\<And>a. r = Some a \<Longrightarrow> maps h' a = maps h a) \<Longrightarrow> mapOf h' r = mapOf h r"
  by (cases r) (simp_all add: mapOf_def)

lemma copyTable_allocated:
  assumes "copyTable t h = Inr (t', h1)" and "tableAllocated h u"
  shows "tableAllocated h1 u" and "sliceElems h1 (people u) = sliceElems h (people u)"
    and "mapOf h1 (peopleMap u) = mapOf h (peopleMap u)"
proof -
  note f = copyTable_Inr [OF assms(1)]
  from assms(2) have a: "sbase (people u) < nextArray h"
    and m: "\<And>x. peopleMap u = Some x \<Longrightarrow> x < nextMap h"
    by (auto simp: tableAllocated_def sliceAllocated_def)
  from a have arr: "arrays h1 (sbase (people u)) = arrays h (sbase (people u))"
    by (simp add: f)
  show "sliceElems h1 (people u) = sliceElems h (people u)"
    using arr by (rule sliceElems_cong)
  show "mapOf h1 (peopleMap u) = mapOf h (peopleMap u)"
  proof (rule mapOf_cong)
    fix x assume "peopleMap u = Some x"
    then have "x < nextMap h" by (rule m)
    then show "maps h1 x = maps h x" by (simp add: f)
  qed
  show "tableAllocated h1 u"
    using assms(2) arr by (auto simp: tableAllocated_def sliceAllocated_def f split: option.splits)
qed

lemma copyAssignment_contents:
  "copyAssignment a h = Inr (a', h') \<Longrightarrow> \<forall>t\<in>set a. tableAllocated h t \<Longrightarrow>
     (\<forall>i<length a.
        arrays h' (nextArray h + i) =
          goCopy (replicate (nat (capacity (a ! i))) zeroPerson) (sliceElems h (people (a ! i)))
      \<and> maps h' (nextMap h + i) = mapOf h (peopleMap (a ! i)))"
proof (induction a arbitrary: h a')
  case Nil
  then show ?case by simp
next
  case (Cons t ts)
  from Cons.prems(1) obtain t' h1 ts' where one: "copyTable t h = Inr (t', h1)"
    and rest: "copyAssignment ts h1 = Inr (ts', h')" and a': "a' = t' # ts'"
    by (rule copyAssignment_Cons)
  note f = copyTable_Inr [OF one]
  have alloc1: "\<forall>u\<in>set ts. tableAllocated h1 u"
    using Cons.prems(2) copyTable_allocated(1) [OF one] by simp
  note ih = Cons.IH [OF rest alloc1]
  note fr = copyAssignment_frame [OF rest]
  show ?case
  proof (intro allI impI)
    fix i assume i: "i < length (t # ts)"
    show "arrays h' (nextArray h + i) =
          goCopy (replicate (nat (capacity ((t # ts) ! i))) zeroPerson)
            (sliceElems h (people ((t # ts) ! i)))
      \<and> maps h' (nextMap h + i) = mapOf h (peopleMap ((t # ts) ! i))"
    proof (cases i)
      case 0
      have "arrays h' (nextArray h) = arrays h1 (nextArray h)"
        using fr by (simp add: f(3))
      moreover have "maps h' (nextMap h) = maps h1 (nextMap h)"
        using fr by (simp add: f(4))
      ultimately show ?thesis by (simp add: 0 f(5,6))
    next
      case (Suc k)
      with i have k: "k < length ts" by simp
      then have u: "tableAllocated h (ts ! k)" using Cons.prems(2) by simp
      from ih k have "arrays h' (nextArray h1 + k) =
          goCopy (replicate (nat (capacity (ts ! k))) zeroPerson) (sliceElems h1 (people (ts ! k)))"
        and "maps h' (nextMap h1 + k) = mapOf h1 (peopleMap (ts ! k))" by blast+
      then show ?thesis
        by (simp add: Suc f(3,4) copyTable_allocated(2,3) [OF one u])
    qed
  qed
qed

section \<open>What getNeighbour does to the copy\<close>

lemma Intn_Inr:
  assumes "0 < n"
  obtains k r' where "Intn n r = Inr (k, r')" and "k < nat n"
  using assms by (cases "intDraws r") (auto simp: Intn_def)

lemma swapPeople_layout:
  assumes len: "length a' = length a"
    and shape: "\<forall>i<length a. a' ! i = freshTable (pa + i) (ma + i) (a ! i)"
    and two: "2 \<le> length a"
    and caps: "\<forall>t\<in>set a. 1 \<le> capacity t"
  shows "\<exists>r' i1 j1 i2 j2.
           swapPeople a' (int (length a)) (r, h) = Inr (r', swappedHeap pa ma i1 j1 i2 j2 h)
         \<and> i1 < length a \<and> i2 < length a \<and> i1 \<noteq> i2
         \<and> j1 < nat (capacity (a ! i1)) \<and> j2 < nat (capacity (a ! i2))"
proof -
  from two have "0 < int (length a)" by linarith
  then obtain i1 r1 where d1: "Intn (int (length a)) r = Inr (i1, r1)" and i1: "i1 < length a"
    by (rule Intn_Inr) simp
  from two have "0 < int (length a) - 1" by linarith
  then obtain k2 r2 where d2: "Intn (int (length a) - 1) r1 = Inr (k2, r2)"
    and k2: "k2 < nat (int (length a) - 1)"
    by (rule Intn_Inr)
  define i2 where "i2 = (if k2 \<ge> i1 then k2 + 1 else k2)"
  have i2: "i2 < length a" and ne: "i1 \<noteq> i2" using k2 i1 by (auto simp: i2_def)
  have t1: "a' ! i1 = freshTable (pa + i1) (ma + i1) (a ! i1)" using shape i1 by blast
  have t2: "a' ! i2 = freshTable (pa + i2) (ma + i2) (a ! i2)" using shape i2 by blast
  have c1: "0 < capacity (a ! i1)" and c2: "0 < capacity (a ! i2)"
    using caps nth_mem [OF i1] nth_mem [OF i2] by force+
  from c1 obtain j1 r3 where d3: "Intn (capacity (a ! i1)) r2 = Inr (j1, r3)"
    and j1: "j1 < nat (capacity (a ! i1))"
    by (rule Intn_Inr)
  from c2 obtain j2 r4 where d4: "Intn (capacity (a ! i2)) r3 = Inr (j2, r4)"
    and j2: "j2 < nat (capacity (a ! i2))"
    by (rule Intn_Inr)
  have "swapPeople a' (int (length a)) (r, h) = Inr (r4, swappedHeap pa ma i1 j1 i2 j2 h)"
    using i1 i2 ne j1 j2 len
    by (simp add: swapPeople_def d1 d2 i2_def [symmetric] tableAt_def t1 t2 freshTable_def d3 d4
        indexRead_def indexWrite_def mapDelete_def mapAssign_def swappedHeap_def Let_def
        fun_upd_twist)
  with i1 i2 ne j1 j2 show ?thesis by blast
qed

lemma swappedHeap_next [simp]:
  "nextArray (swappedHeap pa ma i1 j1 i2 j2 h) = nextArray h"
  "nextMap (swappedHeap pa ma i1 j1 i2 j2 h) = nextMap h"
  by (simp_all add: swappedHeap_def Let_def)

lemma swappedHeap_arrays_other:
  "x \<noteq> pa + i1 \<Longrightarrow> x \<noteq> pa + i2 \<Longrightarrow> arrays (swappedHeap pa ma i1 j1 i2 j2 h) x = arrays h x"
  by (simp add: swappedHeap_def Let_def)

lemma swappedHeap_maps_other:
  "x \<noteq> ma + i1 \<Longrightarrow> x \<noteq> ma + i2 \<Longrightarrow> maps (swappedHeap pa ma i1 j1 i2 j2 h) x = maps h x"
  by (simp add: swappedHeap_def Let_def)

lemma swappedHeap_length [simp]:
  "length (arrays (swappedHeap pa ma i1 j1 i2 j2 h) x) = length (arrays h x)"
  by (simp add: swappedHeap_def Let_def)

lemma swappedHeap_slot:
  "(i, j) \<noteq> (i1, j1) \<Longrightarrow> (i, j) \<noteq> (i2, j2) \<Longrightarrow>
     arrays (swappedHeap pa ma i1 j1 i2 j2 h) (pa + i) ! j = arrays h (pa + i) ! j"
  by (auto simp: swappedHeap_def Let_def)

lemma swapsApplied_refl: "swapsApplied pa ma n 0 h h"
proof -
  have "\<exists>S::(nat \<times> nat) set. finite S \<and> card S \<le> 2 * 0
          \<and> (\<forall>i j. (i, j) \<notin> S \<longrightarrow> arrays h (pa + i) ! j = arrays h (pa + i) ! j)"
    by (intro exI [of _ "{}"]) simp
  then show ?thesis unfolding swapsApplied_def by simp
qed

lemma swapsAppliedD:
  assumes "swapsApplied pa ma n k h h'"
  shows "nextArray h' = nextArray h" and "nextMap h' = nextMap h"
    and "\<And>x. x < pa \<or> pa + n \<le> x \<Longrightarrow> arrays h' x = arrays h x"
    and "\<And>x. x < ma \<or> ma + n \<le> x \<Longrightarrow> maps h' x = maps h x"
    and "\<And>x. length (arrays h' x) = length (arrays h x)"
    and "\<exists>S. finite S \<and> card S \<le> 2 * k
            \<and> (\<forall>i j. (i, j) \<notin> S \<longrightarrow> arrays h' (pa + i) ! j = arrays h (pa + i) ! j)"
proof -
  from assms have c: "nextArray h' = nextArray h \<and> nextMap h' = nextMap h
      \<and> (\<forall>x. x < pa \<or> pa + n \<le> x \<longrightarrow> arrays h' x = arrays h x)
      \<and> (\<forall>x. x < ma \<or> ma + n \<le> x \<longrightarrow> maps h' x = maps h x)
      \<and> (\<forall>x. length (arrays h' x) = length (arrays h x))
      \<and> (\<exists>S. finite S \<and> card S \<le> 2 * k
            \<and> (\<forall>i j. (i, j) \<notin> S \<longrightarrow> arrays h' (pa + i) ! j = arrays h (pa + i) ! j))"
    unfolding swapsApplied_def .
  from c show "nextArray h' = nextArray h" by (elim conjE)
  from c show "nextMap h' = nextMap h" by (elim conjE)
  from c have "\<forall>x. x < pa \<or> pa + n \<le> x \<longrightarrow> arrays h' x = arrays h x" by (elim conjE)
  then show "\<And>x. x < pa \<or> pa + n \<le> x \<Longrightarrow> arrays h' x = arrays h x" by (rule allE) (rule mp)
  from c have "\<forall>x. x < ma \<or> ma + n \<le> x \<longrightarrow> maps h' x = maps h x" by (elim conjE)
  then show "\<And>x. x < ma \<or> ma + n \<le> x \<Longrightarrow> maps h' x = maps h x" by (rule allE) (rule mp)
  from c have "\<forall>x. length (arrays h' x) = length (arrays h x)" by (elim conjE)
  then show "\<And>x. length (arrays h' x) = length (arrays h x)" by (rule spec)
  from c show "\<exists>S. finite S \<and> card S \<le> 2 * k
            \<and> (\<forall>i j. (i, j) \<notin> S \<longrightarrow> arrays h' (pa + i) ! j = arrays h (pa + i) ! j)"
    by (elim conjE)
qed

lemma swapsApplied_step:
  assumes "i1 < n" "i2 < n"
    and "swapsApplied pa ma n k (swappedHeap pa ma i1 j1 i2 j2 h) h'"
  shows "swapsApplied pa ma n (Suc k) h h'"
proof -
  let ?h1 = "swappedHeap pa ma i1 j1 i2 j2 h"
  note d = swapsAppliedD [OF assms(3)]
  from d(6) obtain S where S: "finite S" "card S \<le> 2 * k"
    "\<forall>i j. (i, j) \<notin> S \<longrightarrow> arrays h' (pa + i) ! j = arrays ?h1 (pa + i) ! j"
    by (elim exE conjE)
  let ?S = "insert (i1, j1) (insert (i2, j2) S)"
  have fin: "finite ?S" using S(1) by simp
  have "card ?S \<le> Suc (Suc (card S))"
    using S(1) by (simp add: card_insert_if)
  then have card: "card ?S \<le> 2 * Suc k" using S(2) by simp
  have slots: "\<forall>i j. (i, j) \<notin> ?S \<longrightarrow> arrays h' (pa + i) ! j = arrays h (pa + i) ! j"
  proof (intro allI impI)
    fix i j assume out: "(i, j) \<notin> ?S"
    then have "arrays h' (pa + i) ! j = arrays ?h1 (pa + i) ! j" using S(3) by blast
    also have "\<dots> = arrays h (pa + i) ! j"
      using out by (intro swappedHeap_slot) auto
    finally show "arrays h' (pa + i) ! j = arrays h (pa + i) ! j" .
  qed
  have arr: "\<forall>x. x < pa \<or> pa + n \<le> x \<longrightarrow> arrays h' x = arrays h x"
  proof (intro allI impI)
    fix x assume x: "x < pa \<or> pa + n \<le> x"
    then have "arrays h' x = arrays ?h1 x" by (rule d(3))
    also have "\<dots> = arrays h x"
      using x assms(1,2) by (intro swappedHeap_arrays_other) auto
    finally show "arrays h' x = arrays h x" .
  qed
  have mp: "\<forall>x. x < ma \<or> ma + n \<le> x \<longrightarrow> maps h' x = maps h x"
  proof (intro allI impI)
    fix x assume x: "x < ma \<or> ma + n \<le> x"
    then have "maps h' x = maps ?h1 x" by (rule d(4))
    also have "\<dots> = maps h x"
      using x assms(1,2) by (intro swappedHeap_maps_other) auto
    finally show "maps h' x = maps h x" .
  qed
  have rest: "nextArray h' = nextArray h" "nextMap h' = nextMap h"
    "\<forall>x. length (arrays h' x) = length (arrays h x)"
    using d(1,2,5) by simp_all
  have ex: "\<exists>S. finite S \<and> card S \<le> 2 * Suc k
            \<and> (\<forall>i j. (i, j) \<notin> S \<longrightarrow> arrays h' (pa + i) ! j = arrays h (pa + i) ! j)"
    using fin card slots by (intro exI [of _ ?S] conjI)
  show ?thesis
    unfolding swapsApplied_def by (intro conjI rest arr mp ex)
qed

lemma swapLoop_effect:
  assumes len: "length a' = length a"
    and shape: "\<forall>i<length a. a' ! i = freshTable (pa + i) (ma + i) (a ! i)"
    and two: "2 \<le> length a"
    and caps: "\<forall>t\<in>set a. 1 \<le> capacity t"
  shows "\<exists>r' h'. swapLoop k a' (int (length a)) (r, h) = Inr (r', h')
           \<and> swapsApplied pa ma (length a) k h h'"
proof (induction k arbitrary: r h)
  case 0
  show ?case by (simp add: swapsApplied_refl)
next
  case (Suc k)
  from swapPeople_layout [OF len shape two caps, of r h]
  obtain r1 i1 j1 i2 j2 where
    one: "swapPeople a' (int (length a)) (r, h) = Inr (r1, swappedHeap pa ma i1 j1 i2 j2 h)"
    and i: "i1 < length a" "i2 < length a"
    by blast
  from Suc.IH [of r1 "swappedHeap pa ma i1 j1 i2 j2 h"]
  obtain r' h' where
    run: "swapLoop k a' (int (length a)) (r1, swappedHeap pa ma i1 j1 i2 j2 h) = Inr (r', h')"
    and app: "swapsApplied pa ma (length a) k (swappedHeap pa ma i1 j1 i2 j2 h) h'"
    by blast
  have "swapLoop (Suc k) a' (int (length a)) (r, h) = Inr (r', h')"
    by (simp add: one run)
  moreover have "swapsApplied pa ma (length a) (Suc k) h h'"
    using i app by (rule swapsApplied_step)
  ultimately show ?case by blast
qed

lemma getNeighbour_effect:
  assumes two: "2 \<le> length a" and caps: "\<forall>t\<in>set a. 1 \<le> capacity t"
  shows "\<exists>a' r' h0 h'. getNeighbour a k (r, h) = Inr (a', r', h')
           \<and> copyAssignment a h = Inr (a', h0)
           \<and> swapsApplied (nextArray h) (nextMap h) (length a) (nat k) h0 h'"
proof -
  from caps have "\<forall>t\<in>set a. 0 \<le> capacity t" by force
  then obtain a' h0 where copy: "copyAssignment a h = Inr (a', h0)"
    using copyAssignment_total by blast
  note sh = copyAssignment_shape [OF copy]
  from sh have len: "length a' = length a"
    and shape: "\<forall>i<length a. a' ! i = freshTable (nextArray h + i) (nextMap h + i) (a ! i)"
    by simp_all
  from swapLoop_effect [OF len shape two caps, of "nat k" r h0]
  obtain r' h' where loop: "swapLoop (nat k) a' (int (length a)) (r, h0) = Inr (r', h')"
    and app: "swapsApplied (nextArray h) (nextMap h) (length a) (nat k) h0 h'"
    by blast
  have "getNeighbour a k (r, h) = Inr (a', r', h')"
    by (simp add: getNeighbour_def copy loop Let_def)
  with copy app show ?thesis by blast
qed

lemma occupants_freshTable:
  "length (arrays h (pa + i)) = nat (capacity t) \<Longrightarrow>
     occupants h (freshTable (pa + i) (ma + i) t) = arrays h (pa + i)"
  by (simp add: occupants_def sliceElems_def freshTable_def)

text \<open>
  Claim C5. On an assignment of at least two tables that satisfies the table invariant
  (allocated, capacity at least \<open>1\<close>, as many occupants as the capacity) and for
  \<open>swapCount = k \<ge> 0\<close>, \<open>getNeighbour\<close> returns. The assignment it returns has the same
  number of tables and of seats; there is a set of at most \<open>2k\<close> seats outside of which
  every occupant is the one of the input; its arrays and maps are new; and no array or map
  that existed before the call has changed, so that the input assignment reads as before.
\<close>

theorem neighbour_frame:
  assumes two: "2 \<le> length a" and k: "0 \<le> k"
    and wf: "\<forall>t\<in>set a. tableAllocated h t \<and> 1 \<le> capacity t
               \<and> int (length (occupants h t)) = capacity t"
  shows "\<exists>a' r' h'. getNeighbour a k (r, h) = Inr (a', r', h')
           \<and> length a' = length a
           \<and> (\<forall>i<length a. length (occupants h' (a' ! i)) = length (occupants h (a ! i)))
           \<and> (\<exists>S. finite S \<and> card S \<le> 2 * nat k
                 \<and> (\<forall>i<length a. \<forall>j<length (occupants h (a ! i)). (i, j) \<notin> S \<longrightarrow>
                        occupants h' (a' ! i) ! j = occupants h (a ! i) ! j))
           \<and> (\<forall>i<length a. nextArray h \<le> sbase (people (a' ! i))
                 \<and> (\<exists>m. peopleMap (a' ! i) = Some m \<and> nextMap h \<le> m))
           \<and> (\<forall>x<nextArray h. arrays h' x = arrays h x)
           \<and> (\<forall>x<nextMap h. maps h' x = maps h x)
           \<and> (\<forall>t\<in>set a. occupants h' t = occupants h t
                 \<and> mapOf h' (peopleMap t) = mapOf h (peopleMap t))"
proof -
  from wf have caps: "\<forall>t\<in>set a. 1 \<le> capacity t" and alloc: "\<forall>t\<in>set a. tableAllocated h t"
    by blast+
  from getNeighbour_effect [OF two caps, of k r h]
  obtain a' r' h0 h' where run: "getNeighbour a k (r, h) = Inr (a', r', h')"
    and copy: "copyAssignment a h = Inr (a', h0)"
    and app: "swapsApplied (nextArray h) (nextMap h) (length a) (nat k) h0 h'"
    by blast
  note sh = copyAssignment_shape [OF copy]
  note fr = copyAssignment_frame [OF copy]
  note ct = copyAssignment_contents [OF copy alloc]
  note d = swapsAppliedD [OF app]
  from sh have len: "length a' = length a"
    and shape: "\<And>i. i < length a \<Longrightarrow>
       a' ! i = freshTable (nextArray h + i) (nextMap h + i) (a ! i)"
    by simp_all
  have orig: "arrays h0 (nextArray h + i) = occupants h (a ! i)" if "i < length a" for i
  proof -
    from that wf have "int (length (occupants h (a ! i))) = capacity (a ! i)" by simp
    then have "length (sliceElems h (people (a ! i))) = length (replicate (nat (capacity (a ! i))) zeroPerson)"
      by (simp add: occupants_def)
    then have "goCopy (replicate (nat (capacity (a ! i))) zeroPerson) (sliceElems h (people (a ! i)))
        = sliceElems h (people (a ! i))"
      by (rule goCopy_same_length)
    with ct that show ?thesis by (simp add: occupants_def)
  qed
  have new: "occupants h' (a' ! i) = arrays h' (nextArray h + i)" if "i < length a" for i
  proof -
    from that wf have "int (length (occupants h (a ! i))) = capacity (a ! i)" by simp
    then have "length (arrays h' (nextArray h + i)) = nat (capacity (a ! i))"
      using orig [OF that] d(5) [of "nextArray h + i"] by simp
    then show ?thesis by (simp add: shape [OF that] occupants_freshTable)
  qed
  have lens: "\<forall>i<length a. length (occupants h' (a' ! i)) = length (occupants h (a ! i))"
  proof (intro allI impI)
    fix i assume i: "i < length a"
    show "length (occupants h' (a' ! i)) = length (occupants h (a ! i))"
      using new [OF i] orig [OF i] d(5) [of "nextArray h + i"] by simp
  qed
  from d(6) obtain S where S: "finite S" "card S \<le> 2 * nat k"
    "\<forall>i j. (i, j) \<notin> S \<longrightarrow> arrays h' (nextArray h + i) ! j = arrays h0 (nextArray h + i) ! j"
    by (elim exE conjE)
  have slots: "\<exists>S. finite S \<and> card S \<le> 2 * nat k
                 \<and> (\<forall>i<length a. \<forall>j<length (occupants h (a ! i)). (i, j) \<notin> S \<longrightarrow>
                        occupants h' (a' ! i) ! j = occupants h (a ! i) ! j)"
  proof (intro exI [of _ S] conjI allI impI)
    fix i j assume "i < length a" "j < length (occupants h (a ! i))" "(i, j) \<notin> S"
    then show "occupants h' (a' ! i) ! j = occupants h (a ! i) ! j"
      using S(3) new [of i] orig [of i] by simp
  qed (rule S(1), rule S(2))
  have fresh: "\<forall>i<length a. nextArray h \<le> sbase (people (a' ! i))
                 \<and> (\<exists>m. peopleMap (a' ! i) = Some m \<and> nextMap h \<le> m)"
    by (simp add: shape freshTable_def)
  have arr: "\<forall>x<nextArray h. arrays h' x = arrays h x"
  proof (intro allI impI)
    fix x assume x: "x < nextArray h"
    then have "arrays h' x = arrays h0 x" by (intro d(3)) simp
    with fr x show "arrays h' x = arrays h x" by simp
  qed
  have mp: "\<forall>x<nextMap h. maps h' x = maps h x"
  proof (intro allI impI)
    fix x assume x: "x < nextMap h"
    then have "maps h' x = maps h0 x" by (intro d(4)) simp
    with fr x show "maps h' x = maps h x" by simp
  qed
  have same: "\<forall>t\<in>set a. occupants h' t = occupants h t
                 \<and> mapOf h' (peopleMap t) = mapOf h (peopleMap t)"
  proof
    fix t assume "t \<in> set a"
    with alloc have t: "tableAllocated h t" by blast
    then have "sbase (people t) < nextArray h"
      by (simp add: tableAllocated_def sliceAllocated_def)
    with arr have "arrays h' (sbase (people t)) = arrays h (sbase (people t))" by blast
    then have "occupants h' t = occupants h t"
      unfolding occupants_def by (rule sliceElems_cong)
    moreover have "mapOf h' (peopleMap t) = mapOf h (peopleMap t)"
    proof (rule mapOf_cong)
      fix m assume "peopleMap t = Some m"
      with t have "m < nextMap h" by (simp add: tableAllocated_def)
      with mp show "maps h' m = maps h m" by simp
    qed
    ultimately show "occupants h' t = occupants h t
                 \<and> mapOf h' (peopleMap t) = mapOf h (peopleMap t)" ..
  qed
  show ?thesis
    by (intro exI [of _ a'] exI [of _ r'] exI [of _ h'] conjI run len lens slots fresh arr mp same)
qed

lemma ex_occupants:
  "occupants exHeap (exTable 0) = [exA, exB]" "occupants exHeap (exTable 1) = [exC, exD]"
  "occupants exHeap (exTable 2) = [exA, exC]" "occupants exHeap (exTable 3) = [exB, exD]"
  by (simp_all add: occupants_def sliceElems_def exHeap_def exTable_def)

text \<open>The theorem of C5 at the example: one swap of \<open>B\<close> and \<open>C\<close>.\<close>

theorem neighbour_frame_witness:
  "2 \<le> length exTogether \<and> (0::int) \<le> 1
   \<and> getNeighbour exTogether 1 (exRand, exHeap) =
       Inr ([exTable 4, exTable 5], \<lparr>intDraws = [], floatDraws = [1 / 2]\<rparr>, exNeighbourHeap)
   \<and> occupants exNeighbourHeap (exTable 4) = [exA, exC]
   \<and> occupants exNeighbourHeap (exTable 5) = [exB, exD]
   \<and> occupants exNeighbourHeap (exTable 0) = [exA, exB]
   \<and> occupants exNeighbourHeap (exTable 1) = [exC, exD]
   \<and> arrays exNeighbourHeap 0 = arrays exHeap 0 \<and> arrays exNeighbourHeap 1 = arrays exHeap 1
   \<and> maps exNeighbourHeap 0 = maps exHeap 0 \<and> maps exNeighbourHeap 1 = maps exHeap 1"
proof -
  have two: "2 \<le> length exTogether" by (simp add: exTogether_def)
  have k: "(0::int) \<le> 1" by simp
  have wf: "\<forall>t\<in>set exTogether. tableAllocated exHeap t \<and> 1 \<le> capacity t
               \<and> int (length (occupants exHeap t)) = capacity t"
    using ex_allocated ex_occupants by (simp add: exTogether_def exTable_def)
  from neighbour_frame [OF two k wf, of exRand]
  have keep: "\<forall>t\<in>set exTogether. occupants exNeighbourHeap t = occupants exHeap t"
    and arr: "\<forall>x<nextArray exHeap. arrays exNeighbourHeap x = arrays exHeap x"
    and mp: "\<forall>x<nextMap exHeap. maps exNeighbourHeap x = maps exHeap x"
    by (auto simp: ex_neighbour)
  have new: "occupants exNeighbourHeap (exTable 4) = [exA, exC]"
    "occupants exNeighbourHeap (exTable 5) = [exB, exD]"
    by (simp_all add: occupants_def sliceElems_def exNeighbourHeap_def exTable_def)
  have n: "nextArray exHeap = 4" "nextMap exHeap = 4" by (simp_all add: exHeap_def)
  have "occupants exNeighbourHeap (exTable 0) = [exA, exB]"
    "occupants exNeighbourHeap (exTable 1) = [exC, exD]"
    using keep ex_occupants by (simp_all add: exTogether_def)
  moreover have "arrays exNeighbourHeap 0 = arrays exHeap 0" "arrays exNeighbourHeap 1 = arrays exHeap 1"
    using arr by (simp_all add: n)
  moreover have "maps exNeighbourHeap 0 = maps exHeap 0" "maps exNeighbourHeap 1 = maps exHeap 1"
    using mp by (simp_all add: n)
  ultimately show ?thesis using two new by (simp add: ex_neighbour)
qed

lemma swapPeople_too_few:
  assumes "length a < 2"
  shows "swapPeople a' (int (length a)) (r, h) = Inl IntnInvalidArgument"
proof (cases "length a = 0")
  case True
  then show ?thesis by (simp add: swapPeople_def Intn_def)
next
  case False
  with assms have one: "int (length a) = 1" by linarith
  obtain i1 r1 where "Intn 1 r = Inr (i1, r1)"
    by (rule Intn_Inr [of 1 r]) simp
  then show ?thesis by (simp add: swapPeople_def one Intn_def)
qed

text \<open>
  Claim C10. With \<open>swapCount \<ge> 1\<close>, \<open>getNeighbour\<close> panics on an assignment of fewer than
  two tables: when the copy has been made, the panic is that of \<open>rand.Intn\<close> called with
  \<open>len - 1 \<le> 0\<close> (or with \<open>len = 0\<close>). On an assignment of at least two tables whose
  capacities are at least \<open>1\<close> and equal to the numbers of occupants, it does not panic:
  no index is out of range and no draw is from an empty range.
\<close>

theorem neighbour_needs_two_tables:
  "(length a < 2 \<and> 1 \<le> k \<longrightarrow>
      (\<exists>e. getNeighbour a k (r, h) = Inl e)
    \<and> ((\<forall>t\<in>set a. 0 \<le> capacity t) \<longrightarrow> getNeighbour a k (r, h) = Inl IntnInvalidArgument))
   \<and> (2 \<le> length a
        \<and> (\<forall>t\<in>set a. 1 \<le> capacity t \<and> int (length (occupants h t)) = capacity t) \<longrightarrow>
      (\<exists>res. getNeighbour a k (r, h) = Inr res))"
proof (intro conjI impI)
  assume few: "length a < 2 \<and> 1 \<le> k"
  then obtain m where m: "nat k = Suc m" by (cases "nat k") auto
  have run: "getNeighbour a k (r, h) = Inl IntnInvalidArgument"
    if "copyAssignment a h = Inr (a', h0)" for a' h0
    using few that by (simp add: getNeighbour_def Let_def m swapPeople_too_few)
  show "\<exists>e. getNeighbour a k (r, h) = Inl e"
  proof (cases "copyAssignment a h")
    case (Inl e)
    then show ?thesis by (simp add: getNeighbour_def Let_def)
  next
    case (Inr x)
    then show ?thesis using run [of "fst x" "snd x"] by simp
  qed
  assume "\<forall>t\<in>set a. 0 \<le> capacity t"
  then obtain a' h0 where "copyAssignment a h = Inr (a', h0)"
    using copyAssignment_total by blast
  then show "getNeighbour a k (r, h) = Inl IntnInvalidArgument" by (rule run)
next
  assume "2 \<le> length a
        \<and> (\<forall>t\<in>set a. 1 \<le> capacity t \<and> int (length (occupants h t)) = capacity t)"
  then have two: "2 \<le> length a" and caps: "\<forall>t\<in>set a. 1 \<le> capacity t" by blast+
  from getNeighbour_effect [OF two caps, of k r h]
  show "\<exists>res. getNeighbour a k (r, h) = Inr res" by blast
qed

text \<open>The theorem of C10 at a single table and at the two tables of the example.\<close>

theorem neighbour_needs_two_tables_witness:
  "length [exTable 0] < 2 \<and> (1::int) \<le> 1
   \<and> getNeighbour [exTable 0] 1 (exRand, exHeap) = Inl IntnInvalidArgument
   \<and> 2 \<le> length exTogether
   \<and> (\<exists>res. getNeighbour exTogether 1 (exRand, exHeap) = Inr res)"
proof -
  have "getNeighbour [exTable 0] 1 (exRand, exHeap) = Inl IntnInvalidArgument"
    using neighbour_needs_two_tables [of "[exTable 0]" 1 exRand exHeap]
    by (simp add: exTable_def)
  moreover have "\<exists>res. getNeighbour exTogether 1 (exRand, exHeap) = Inr res"
    using neighbour_needs_two_tables [of exTogether 1 exRand exHeap] ex_occupants
    by (simp add: exTogether_def exTable_def)
  ultimately show ?thesis by (simp add: exTogether_def)
qed

section \<open>The cooling loop\<close>

lemma cooledTemperature_Suc:
  "cooledTemperature mul64 rate (Suc n) b = mul64 (cooledTemperature mul64 rate n b) rate"
  by (induction n arbitrary: b) simp_all








section \<open>randomInitialisation and the membership sets\<close>

lemma main_shuffle:
  "shuffleFrom (slen mainPeople) 0 mainPeople (mainRand, mainHeap) =
     Inr (\<lparr>intDraws = [], floatDraws = []\<rparr>, mainHeap)"
  by (simp add: mainPeople_def mainRand_def eval_nat_numeral Intn_def indexRead_def indexWrite_def mainHeap_def
      fun_eq_iff)

lemma main_fill:
  "fillTables mainPeople mainTables 0 mainHeap = Inr (initialTables, initialHeap)"
  by (simp add: mainPeople_def mainTables_def initialTables_def initialHeap_def subSlice_def
      sliceElems_def mapAssign_def mainHeap_def zeroPerson_def fun_eq_iff)


text \<open>
  Claim C1 at this input. \<open>randomInitialisation\<close> seats \<open>A\<close> at the first table and \<open>B\<close>
  at the second, each table with as many occupants as its capacity, but the only key the
  loop over the stale copy \<open>table.people\<close> puts in either \<open>peopleMap\<close> is the empty name of
  the zero persons: \<open>peopleMap\<close> is not the set of the names of the occupants.
\<close>

theorem initial_map_misses_occupants:
  "randomInitialisation mainPeople mainTables (mainRand, mainHeap) =
     Inr (initialTables, \<lparr>intDraws = [], floatDraws = []\<rparr>, initialHeap)
   \<and> occupants initialHeap (initialTables ! 0) = [exA]
   \<and> occupants initialHeap (initialTables ! 1) = [exB]
   \<and> mapOf initialHeap (peopleMap (initialTables ! 0)) = [[] \<mapsto> True]
   \<and> mapOf initialHeap (peopleMap (initialTables ! 1)) = [[] \<mapsto> True]
   \<and> \<not> goLookup (mapOf initialHeap (peopleMap (initialTables ! 0))) ''A''
   \<and> \<not> peopleMapAgrees initialHeap (initialTables ! 0)
   \<and> \<not> peopleMapAgrees initialHeap (initialTables ! 1)"
proof -
  have run: "randomInitialisation mainPeople mainTables (mainRand, mainHeap) =
     Inr (initialTables, \<lparr>intDraws = [], floatDraws = []\<rparr>, initialHeap)"
    by (simp add: randomInitialisation_def main_shuffle main_fill)
  have occ: "occupants initialHeap (initialTables ! 0) = [exA]"
    "occupants initialHeap (initialTables ! 1) = [exB]"
    by (simp_all add: occupants_def sliceElems_def initialTables_def initialHeap_def mainHeap_def)
  have mp: "mapOf initialHeap (peopleMap (initialTables ! 0)) = [[] \<mapsto> True]"
    "mapOf initialHeap (peopleMap (initialTables ! 1)) = [[] \<mapsto> True]"
    by (simp_all add: mapOf_def initialTables_def initialHeap_def)
  have look: "\<not> goLookup (mapOf initialHeap (peopleMap (initialTables ! 0))) ''A''"
    by (simp add: mp goLookup_def)
  have "\<not> peopleMapAgrees initialHeap (initialTables ! 0)"
    unfolding peopleMapAgrees_def mp seatedWith_def occ
    by (simp add: fun_eq_iff exA_def exI [of _ "''A''"])
  moreover have "\<not> peopleMapAgrees initialHeap (initialTables ! 1)"
    unfolding peopleMapAgrees_def mp seatedWith_def occ
    by (simp add: fun_eq_iff exB_def exI [of _ "''B''"])
  ultimately show ?thesis using run occ mp look by simp
qed

section \<open>Runs of anneal that do not panic\<close>























section \<open>What the operations keep of the assignment invariant\<close>

text \<open>
  The parts of claim C1 that hold. \<open>copyAssignment\<close> and \<open>getNeighbour\<close> keep the invariant
  of an assignment that has it: the same people, each table filled to its capacity, each
  \<open>peopleMap\<close> the set of the names of the occupants (for \<open>getNeighbour\<close>, when no two
  people have the same name). \<open>randomInitialisation\<close> seats exactly the people it is given
  and fills each table to its capacity when the capacities add up to the number of people.
  The exchange pass permutes the entries of the ladder.
\<close>

lemma peopleMapAgrees_nameSet:
  "peopleMapAgrees h t \<longleftrightarrow> mapOf h (peopleMap t) = nameSet (occupants h t)"
  by (simp add: peopleMapAgrees_def nameSet_def seatedWith_def)

lemma seatsAt_swapped:
  assumes "i1 < n" "i2 < n" "i1 \<noteq> i2"
  shows "seatsAt pa n (swappedHeap pa ma i1 j1 i2 j2 h) =
           (seatsAt pa n h)
             [i1 := (arrays h (pa + i1))[j1 := arrays h (pa + i2) ! j2],
              i2 := (arrays h (pa + i2))[j2 := arrays h (pa + i1) ! j1]]"
  using assms
  by (intro nth_equalityI) (auto simp: seatsAt_def swappedHeap_def Let_def nth_list_update)

lemma mset_concat_update:
  assumes "i < length xss"
  shows "mset (concat (xss[i := ys])) + mset (xss ! i) = mset (concat xss) + mset ys"
proof -
  have "xss = take i xss @ xss ! i # drop (Suc i) xss"
    using assms by (rule id_take_nth_drop)
  then have "concat xss = concat (take i xss) @ xss ! i @ concat (drop (Suc i) xss)"
    by (metis concat.simps(2) concat_append)
  moreover have "concat (xss[i := ys]) = concat (take i xss) @ ys @ concat (drop (Suc i) xss)"
    using assms by (simp add: upd_conv_take_nth_drop)
  ultimately show ?thesis by (simp add: ac_simps)
qed

lemma mset_update_swap:
  assumes "j < length xs"
  shows "add_mset (xs ! j) (mset (xs[j := q])) = add_mset q (mset xs)"
  using assms by (simp add: mset_update nth_mem_mset)

lemma mset_concat_update2:
  assumes "i1 < length xss" "i2 < length xss" "i1 \<noteq> i2"
    and "j1 < length (xss ! i1)" "j2 < length (xss ! i2)"
  shows "mset (concat (xss[i1 := (xss ! i1)[j1 := xss ! i2 ! j2],
                          i2 := (xss ! i2)[j2 := xss ! i1 ! j1]])) = mset (concat xss)"
proof -
  let ?p = "xss ! i1 ! j1" and ?q = "xss ! i2 ! j2"
  let ?X = "(xss ! i1)[j1 := ?q]" and ?Y = "(xss ! i2)[j2 := ?p]"
  let ?Z = "xss[i1 := ?X]"
  have X: "add_mset ?p (mset ?X) = add_mset ?q (mset (xss ! i1))"
    using assms(4) by (rule mset_update_swap)
  have Y: "add_mset ?q (mset ?Y) = add_mset ?p (mset (xss ! i2))"
    using assms(5) by (rule mset_update_swap)
  have XY: "mset ?X + mset ?Y = mset (xss ! i1) + mset (xss ! i2)"
  proof -
    have "add_mset ?p (add_mset ?q (mset ?X + mset ?Y)) =
          add_mset ?p (mset ?X) + add_mset ?q (mset ?Y)" by simp
    also have "\<dots> = add_mset ?q (mset (xss ! i1)) + add_mset ?p (mset (xss ! i2))"
      by (simp only: X Y)
    also have "\<dots> = add_mset ?p (add_mset ?q (mset (xss ! i1) + mset (xss ! i2)))" by simp
    finally show ?thesis by simp
  qed
  have Z2: "?Z ! i2 = xss ! i2" using assms(3) by simp
  have "mset (concat (?Z[i2 := ?Y])) + mset (?Z ! i2) = mset (concat ?Z) + mset ?Y"
    using assms(2) by (intro mset_concat_update) simp
  then have a: "mset (concat (?Z[i2 := ?Y])) + mset (xss ! i2) = mset (concat ?Z) + mset ?Y"
    by (simp only: Z2)
  have b: "mset (concat ?Z) + mset (xss ! i1) = mset (concat xss) + mset ?X"
    using assms(1) by (rule mset_concat_update)
  have "mset (concat (?Z[i2 := ?Y])) + (mset (xss ! i1) + mset (xss ! i2)) =
        mset (concat ?Z) + mset ?Y + mset (xss ! i1)"
    using a by (simp add: ac_simps)
  also have "\<dots> = mset (concat xss) + mset ?X + mset ?Y"
    using b by (simp add: ac_simps)
  also have "\<dots> = mset (concat xss) + (mset (xss ! i1) + mset (xss ! i2))"
    using XY by (simp add: ac_simps)
  finally show ?thesis by simp
qed

lemma nameSet_update:
  assumes "distinct (map Name xs)" and "j < length xs"
  shows "nameSet (xs[j := q]) = ((nameSet xs)(Name (xs ! j) := None))(Name q \<mapsto> True)"
proof -
  from assms(1) have d: "distinct xs" and inj: "inj_on Name (set xs)"
    by (simp_all add: distinct_map)
  have set: "set (xs[j := q]) = insert q (set xs - {xs ! j})"
    using d assms(2) by (rule set_update_distinct)
  have mem: "xs ! j \<in> set xs" using assms(2) by simp
  have "(k \<in> Name ` (set xs - {xs ! j})) = (k \<in> Name ` set xs \<and> k \<noteq> Name (xs ! j))" for k
  proof
    assume "k \<in> Name ` (set xs - {xs ! j})"
    then obtain x where x: "x \<in> set xs" "x \<noteq> xs ! j" "k = Name x" by blast
    with inj mem have "Name x \<noteq> Name (xs ! j)" by (auto dest: inj_onD)
    with x show "k \<in> Name ` set xs \<and> k \<noteq> Name (xs ! j)" by simp
  next
    assume "k \<in> Name ` set xs \<and> k \<noteq> Name (xs ! j)"
    then show "k \<in> Name ` (set xs - {xs ! j})" by blast
  qed
  then show ?thesis
    by (auto simp: nameSet_def set fun_eq_iff)
qed

lemma seatsAt_nth [simp]: "i < n \<Longrightarrow> seatsAt pa n h ! i = arrays h (pa + i)"
  by (simp add: seatsAt_def)

lemma seatsAt_length [simp]: "length (seatsAt pa n h) = n"
  by (simp add: seatsAt_def)

lemma distinct_names_table:
  assumes "distinct (map Name (concat xss))" and "i < length xss"
  shows "distinct (map Name (xss ! i))"
proof -
  have "map Name (concat xss) = concat (map (map Name) xss)" by (simp add: map_concat)
  with assms(1) have "distinct (concat (map (map Name) xss))" by simp
  then have "\<forall>ys. ys \<in> set (map (map Name) xss) \<longrightarrow> distinct ys"
    by (simp only: distinct_concat_iff) blast
  moreover have "map Name (xss ! i) \<in> set (map (map Name) xss)"
    using assms(2) by simp
  ultimately show ?thesis by blast
qed

lemma swap_keeps_seating:
  assumes "i1 < n" "i2 < n" "i1 \<noteq> i2"
    and "j1 < length (arrays h (pa + i1))" "j2 < length (arrays h (pa + i2))"
  shows "mset (concat (seatsAt pa n (swappedHeap pa ma i1 j1 i2 j2 h))) =
           mset (concat (seatsAt pa n h))"
proof -
  have "seatsAt pa n (swappedHeap pa ma i1 j1 i2 j2 h) =
          (seatsAt pa n h)
            [i1 := (seatsAt pa n h ! i1)[j1 := seatsAt pa n h ! i2 ! j2],
             i2 := (seatsAt pa n h ! i2)[j2 := seatsAt pa n h ! i1 ! j1]]"
    using assms(1,2,3) by (simp add: seatsAt_swapped)
  moreover have "mset (concat ((seatsAt pa n h)
            [i1 := (seatsAt pa n h ! i1)[j1 := seatsAt pa n h ! i2 ! j2],
             i2 := (seatsAt pa n h ! i2)[j2 := seatsAt pa n h ! i1 ! j1]])) =
          mset (concat (seatsAt pa n h))"
    using assms by (intro mset_concat_update2) simp_all
  ultimately show ?thesis by simp
qed

lemma swap_keeps_membership:
  assumes i: "i1 < n" "i2 < n" "i1 \<noteq> i2"
    and j: "j1 < length (arrays h (pa + i1))" "j2 < length (arrays h (pa + i2))"
    and inv: "membershipKept pa ma n h"
  shows "membershipKept pa ma n (swappedHeap pa ma i1 j1 i2 j2 h)"
proof -
  let ?h = "swappedHeap pa ma i1 j1 i2 j2 h"
  from inv have d: "distinct (map Name (concat (seatsAt pa n h)))"
    and m: "\<And>i. i < n \<Longrightarrow> maps h (ma + i) = nameSet (arrays h (pa + i))"
    by (simp_all add: membershipKept_def)
  have "mset (map Name (concat (seatsAt pa n ?h))) = mset (map Name (concat (seatsAt pa n h)))"
    using swap_keeps_seating [OF i j, of ma] by (metis mset_map)
  then have d': "distinct (map Name (concat (seatsAt pa n ?h)))"
    using d by (metis mset_eq_imp_distinct_iff)
  have d1: "distinct (map Name (arrays h (pa + i1)))"
    using distinct_names_table [OF d, of i1] i(1) by simp
  have d2: "distinct (map Name (arrays h (pa + i2)))"
    using distinct_names_table [OF d, of i2] i(2) by simp
  have m': "maps ?h (ma + k) = nameSet (arrays ?h (pa + k))" if k: "k < n" for k
  proof -
    consider (one) "k = i1" | (two) "k = i2" | (other) "k \<noteq> i1" "k \<noteq> i2" by blast
    then show ?thesis
    proof cases
      case one
      then show ?thesis
        using i(3) by (simp add: swappedHeap_def Let_def nameSet_update [OF d1 j(1)] m [OF i(1)])
    next
      case two
      then show ?thesis
        using i(3) by (simp add: swappedHeap_def Let_def nameSet_update [OF d2 j(2)] m [OF i(2)])
    next
      case other
      then show ?thesis by (simp add: swappedHeap_def Let_def m [OF k])
    qed
  qed
  from d' m' show ?thesis by (simp add: membershipKept_def)
qed

lemma swapLoop_keeps:
  assumes len: "length a' = length a"
    and shape: "\<forall>i<length a. a' ! i = freshTable (pa + i) (ma + i) (a ! i)"
    and two: "2 \<le> length a"
    and caps: "\<forall>t\<in>set a. 1 \<le> capacity t"
  shows "swapLoop k a' (int (length a)) (r, h) = Inr (r', h') \<Longrightarrow>
         \<forall>i<length a. length (arrays h (pa + i)) = nat (capacity (a ! i)) \<Longrightarrow>
         membershipKept pa ma (length a) h \<Longrightarrow>
           membershipKept pa ma (length a) h'
         \<and> mset (concat (seatsAt pa (length a) h')) = mset (concat (seatsAt pa (length a) h))
         \<and> (\<forall>i<length a. length (arrays h' (pa + i)) = nat (capacity (a ! i)))"
proof (induction k arbitrary: r h)
  case 0
  then show ?case by simp
next
  case (Suc k)
  from swapPeople_layout [OF len shape two caps, of r h]
  obtain r1 i1 j1 i2 j2 where
    one: "swapPeople a' (int (length a)) (r, h) = Inr (r1, swappedHeap pa ma i1 j1 i2 j2 h)"
    and i: "i1 < length a" "i2 < length a" "i1 \<noteq> i2"
    and j: "j1 < nat (capacity (a ! i1))" "j2 < nat (capacity (a ! i2))"
    by blast
  let ?h1 = "swappedHeap pa ma i1 j1 i2 j2 h"
  from Suc.prems(1) have rest: "swapLoop k a' (int (length a)) (r1, ?h1) = Inr (r', h')"
    by (simp add: one)
  from j i Suc.prems(2) have j': "j1 < length (arrays h (pa + i1))" "j2 < length (arrays h (pa + i2))"
    by simp_all
  have lens1: "\<forall>i<length a. length (arrays ?h1 (pa + i)) = nat (capacity (a ! i))"
    using Suc.prems(2) by simp
  have inv1: "membershipKept pa ma (length a) ?h1"
    using i j' Suc.prems(3) by (rule swap_keeps_membership)
  have seat1: "mset (concat (seatsAt pa (length a) ?h1)) = mset (concat (seatsAt pa (length a) h))"
    using i j' by (rule swap_keeps_seating)
  from Suc.IH [OF rest lens1 inv1] seat1 show ?case by simp
qed

lemma copied_seats:
  assumes copy: "copyAssignment a h = Inr (a', h0)"
    and alloc: "\<forall>t\<in>set a. tableAllocated h t"
    and full: "\<forall>t\<in>set a. int (length (occupants h t)) = capacity t"
    and i: "i < length a"
  shows "arrays h0 (nextArray h + i) = occupants h (a ! i)"
    and "maps h0 (nextMap h + i) = mapOf h (peopleMap (a ! i))"
    and "length (arrays h0 (nextArray h + i)) = nat (capacity (a ! i))"
proof -
  note ct = copyAssignment_contents [OF copy alloc]
  from i full have c: "int (length (occupants h (a ! i))) = capacity (a ! i)" by simp
  then have "length (sliceElems h (people (a ! i))) = length (replicate (nat (capacity (a ! i))) zeroPerson)"
    by (simp add: occupants_def)
  then have "goCopy (replicate (nat (capacity (a ! i))) zeroPerson) (sliceElems h (people (a ! i)))
      = sliceElems h (people (a ! i))"
    by (rule goCopy_same_length)
  with ct i show o: "arrays h0 (nextArray h + i) = occupants h (a ! i)"
    by (simp add: occupants_def)
  from ct i show "maps h0 (nextMap h + i) = mapOf h (peopleMap (a ! i))" by simp
  from o c show "length (arrays h0 (nextArray h + i)) = nat (capacity (a ! i))" by simp
qed

lemma seated_seatsAt:
  assumes "length a' = n"
    and "\<And>i. i < n \<Longrightarrow> occupants h (a' ! i) = arrays h0 (pa + i)"
  shows "seated h a' = concat (seatsAt pa n h0)"
proof -
  have "map (occupants h) a' = seatsAt pa n h0"
    using assms by (intro nth_equalityI) simp_all
  then show ?thesis by (simp add: seated_def)
qed

lemma getNeighbour_keeps_invariant:
  assumes two: "2 \<le> length a"
    and wf: "\<forall>t\<in>set a. tableAllocated h t \<and> 1 \<le> capacity t
               \<and> int (length (occupants h t)) = capacity t \<and> peopleMapAgrees h t"
    and names: "distinct (map Name (seated h a))"
    and run: "getNeighbour a k (r, h) = Inr (a', r', h')"
  shows "mset (seated h' a') = mset (seated h a)"
    and "distinct (map Name (seated h' a'))"
    and "map capacity a' = map capacity a"
    and "\<forall>t\<in>set a'. tableAllocated h' t \<and> 1 \<le> capacity t
               \<and> int (length (occupants h' t)) = capacity t \<and> peopleMapAgrees h' t"
proof -
  let ?pa = "nextArray h" and ?ma = "nextMap h" and ?n = "length a"
  from wf have caps: "\<forall>t\<in>set a. 1 \<le> capacity t" and alloc: "\<forall>t\<in>set a. tableAllocated h t"
    and full: "\<forall>t\<in>set a. int (length (occupants h t)) = capacity t"
    and agree: "\<forall>t\<in>set a. peopleMapAgrees h t"
    by blast+
  from getNeighbour_effect [OF two caps, of k r h] run
  obtain h0 where copy: "copyAssignment a h = Inr (a', h0)"
    and app: "swapsApplied ?pa ?ma ?n (nat k) h0 h'"
    by auto
  from run copy have loop: "swapLoop (nat k) a' (int ?n) (r, h0) = Inr (r', h')"
    by (auto simp: getNeighbour_def Let_def andThen_eq_Inr)
  note sh = copyAssignment_shape [OF copy]
  from sh have len: "length a' = ?n"
    and shape: "\<forall>i<?n. a' ! i = freshTable (?pa + i) (?ma + i) (a ! i)"
    by simp_all
  note cs = copied_seats [OF copy alloc full]
  have occ0: "occupants h (a ! i) = arrays h0 (?pa + i)" if "i < ?n" for i
    using cs(1) [OF that] by simp
  have s0: "seated h a = concat (seatsAt ?pa ?n h0)"
    by (rule seated_seatsAt) (simp_all add: occ0)
  have lens0: "\<forall>i<?n. length (arrays h0 (?pa + i)) = nat (capacity (a ! i))"
    using cs(3) by simp
  have inv0: "membershipKept ?pa ?ma ?n h0"
    unfolding membershipKept_def
  proof (intro conjI allI impI)
    show "distinct (map Name (concat (seatsAt ?pa ?n h0)))" using names s0 by simp
  next
    fix i assume i: "i < ?n"
    then have "peopleMapAgrees h (a ! i)" using agree by simp
    then have "mapOf h (peopleMap (a ! i)) = nameSet (occupants h (a ! i))"
      by (simp add: peopleMapAgrees_nameSet)
    then show "maps h0 (?ma + i) = nameSet (arrays h0 (?pa + i))"
      using cs(1,2) [OF i] by simp
  qed
  from swapLoop_keeps [OF len shape two caps loop lens0 inv0]
  have inv: "membershipKept ?pa ?ma ?n h'"
    and seat: "mset (concat (seatsAt ?pa ?n h')) = mset (concat (seatsAt ?pa ?n h0))"
    and lens: "\<forall>i<?n. length (arrays h' (?pa + i)) = nat (capacity (a ! i))"
    by simp_all
  have occ: "occupants h' (a' ! i) = arrays h' (?pa + i)" if "i < ?n" for i
    using that lens shape by (simp add: occupants_freshTable)
  have s: "seated h' a' = concat (seatsAt ?pa ?n h')"
    by (rule seated_seatsAt) (simp_all add: len occ)
  show "mset (seated h' a') = mset (seated h a)" using seat by (simp add: s s0)
  show "distinct (map Name (seated h' a'))"
    using inv by (simp add: s membershipKept_def)
  show "map capacity a' = map capacity a"
    using len shape by (intro nth_equalityI) (simp_all add: freshTable_def)
  note d = swapsAppliedD [OF app]
  show "\<forall>t\<in>set a'. tableAllocated h' t \<and> 1 \<le> capacity t
               \<and> int (length (occupants h' t)) = capacity t \<and> peopleMapAgrees h' t"
  proof
    fix t assume "t \<in> set a'"
    then obtain i where i: "i < ?n" and t: "t = a' ! i"
      using len by (auto simp: in_set_conv_nth)
    from i have ai: "a ! i \<in> set a" by simp
    with caps have c: "1 \<le> capacity (a ! i)" by blast
    from shape i t have tf: "t = freshTable (?pa + i) (?ma + i) (a ! i)" by simp
    have l: "length (arrays h' (?pa + i)) = nat (capacity (a ! i))" using lens i by simp
    have o: "occupants h' t = arrays h' (?pa + i)" using occ [OF i] t by simp
    have nx: "nextArray h' = ?pa + ?n" "nextMap h' = ?ma + ?n"
      using d(1,2) sh by simp_all
    have "tableAllocated h' t"
      using i l by (simp add: tf tableAllocated_def sliceAllocated_def freshTable_def nx)
    moreover have "1 \<le> capacity t" using c by (simp add: tf freshTable_def)
    moreover have "int (length (occupants h' t)) = capacity t"
      using c l by (simp add: o) (simp add: tf freshTable_def)
    moreover have "peopleMapAgrees h' t"
    proof -
      from inv i have "maps h' (?ma + i) = nameSet (arrays h' (?pa + i))"
        by (simp add: membershipKept_def)
      then show ?thesis
        by (simp add: peopleMapAgrees_nameSet o) (simp add: tf freshTable_def mapOf_def)
    qed
    ultimately show "tableAllocated h' t \<and> 1 \<le> capacity t
               \<and> int (length (occupants h' t)) = capacity t \<and> peopleMapAgrees h' t"
      by blast
  qed
qed

lemma copyAssignment_keeps_invariant:
  assumes copy: "copyAssignment a h = Inr (a', h')"
    and alloc: "\<forall>t\<in>set a. tableAllocated h t"
    and full: "\<forall>t\<in>set a. int (length (occupants h t)) = capacity t"
  shows "seated h' a' = seated h a"
    and "map capacity a' = map capacity a"
    and "\<forall>i<length a. occupants h' (a' ! i) = occupants h (a ! i)
           \<and> mapOf h' (peopleMap (a' ! i)) = mapOf h (peopleMap (a ! i))
           \<and> (peopleMapAgrees h' (a' ! i) \<longleftrightarrow> peopleMapAgrees h (a ! i))"
proof -
  note sh = copyAssignment_shape [OF copy]
  from sh have len: "length a' = length a"
    and shape: "\<And>i. i < length a \<Longrightarrow> a' ! i = freshTable (nextArray h + i) (nextMap h + i) (a ! i)"
    by simp_all
  note cs = copied_seats [OF copy alloc full]
  have occ: "occupants h' (a' ! i) = occupants h (a ! i)" if "i < length a" for i
    using cs(1,3) [OF that] by (simp add: shape [OF that] occupants_freshTable)
  have mp: "mapOf h' (peopleMap (a' ! i)) = mapOf h (peopleMap (a ! i))" if "i < length a" for i
    using cs(2) [OF that] by (simp add: shape [OF that] freshTable_def mapOf_def)
  have "map (occupants h') a' = map (occupants h) a"
    using len occ by (intro nth_equalityI) simp_all
  then show "seated h' a' = seated h a" by (simp add: seated_def)
  show "map capacity a' = map capacity a"
    using len shape by (intro nth_equalityI) (simp_all add: freshTable_def)
  show "\<forall>i<length a. occupants h' (a' ! i) = occupants h (a ! i)
           \<and> mapOf h' (peopleMap (a' ! i)) = mapOf h (peopleMap (a ! i))
           \<and> (peopleMapAgrees h' (a' ! i) \<longleftrightarrow> peopleMapAgrees h (a ! i))"
    using occ mp by (simp add: peopleMapAgrees_nameSet)
qed

lemma sliceElems_swap:
  assumes "soff s + slen s \<le> length (arrays h (sbase s))" and "i < slen s" and "j < slen s"
    and "arrays h' (sbase s) =
           (arrays h (sbase s))[soff s + i := arrays h (sbase s) ! (soff s + j),
                                soff s + j := arrays h (sbase s) ! (soff s + i)]"
  shows "mset (sliceElems h' s) = mset (sliceElems h s)"
proof -
  let ?e = "sliceElems h s"
  have l: "length ?e = slen s" using assms(1) by (auto simp: sliceElems_def)
  have nth: "?e ! k = arrays h (sbase s) ! (soff s + k)" if "k < slen s" for k
    using that assms(1) by (simp add: sliceElems_def)
  have "sliceElems h' s = ?e[i := ?e ! j, j := ?e ! i]"
    using assms(1,2,3)
    by (simp add: sliceElems_def assms(4) take_update_swap drop_update_swap)
  moreover have "mset (?e[i := ?e ! j, j := ?e ! i]) = mset ?e"
    using assms(2,3) l by (intro mset_swap) simp_all
  ultimately show ?thesis by simp
qed

lemma shuffleFrom_permutes:
  "shuffleFrom n i ppl (r, h) = Inr (r', h') \<Longrightarrow> i + n \<le> slen ppl \<Longrightarrow>
   soff ppl + slen ppl \<le> length (arrays h (sbase ppl)) \<Longrightarrow>
     mset (sliceElems h' ppl) = mset (sliceElems h ppl)
   \<and> length (arrays h' (sbase ppl)) = length (arrays h (sbase ppl))
   \<and> (\<forall>x. x \<noteq> sbase ppl \<longrightarrow> arrays h' x = arrays h x)
   \<and> maps h' = maps h \<and> nextArray h' = nextArray h \<and> nextMap h' = nextMap h"
proof (induction n arbitrary: i r h)
  case 0
  then show ?case by simp
next
  case (Suc n)
  have "0 < int i + 1" by simp
  then obtain j r1 where d: "Intn (int i + 1) r = Inr (j, r1)" and j: "j < nat (int i + 1)"
    by (rule Intn_Inr)
  from Suc.prems(2) j have i: "i < slen ppl" and j': "j < slen ppl" by simp_all
  let ?arr = "arrays h (sbase ppl)"
  let ?h2 = "h\<lparr>arrays := (arrays h)(sbase ppl :=
               ?arr[soff ppl + i := ?arr ! (soff ppl + j), soff ppl + j := ?arr ! (soff ppl + i)])\<rparr>"
  from Suc.prems(1) have rest: "shuffleFrom n (Suc i) ppl (r1, ?h2) = Inr (r', h')"
    using i j' by (simp add: d indexRead_def indexWrite_def)
  have step: "mset (sliceElems ?h2 ppl) = mset (sliceElems h ppl)"
    using Suc.prems(3) i j' by (rule sliceElems_swap) simp
  have len2: "soff ppl + slen ppl \<le> length (arrays ?h2 (sbase ppl))"
    using Suc.prems(3) by simp
  have "Suc i + n \<le> slen ppl" using Suc.prems(2) by simp
  from Suc.IH [OF rest this len2] step show ?case by simp
qed

lemma markPeople_arrays:
  "markPeople pm ps h = Inr h' \<Longrightarrow> arrays h' = arrays h \<and> nextArray h' = nextArray h"
proof (induction ps arbitrary: h)
  case Nil
  then show ?case by simp
next
  case (Cons p ps)
  from Cons.prems obtain h1 where one: "mapAssign h pm (Name p) True = Inr h1"
    and rest: "markPeople pm ps h1 = Inr h'"
    by (auto simp: andThen_eq_Inr)
  from one have "arrays h1 = arrays h \<and> nextArray h1 = nextArray h"
    by (auto simp: mapAssign_def split: option.splits)
  with Cons.IH [OF rest] show ?case by simp
qed

lemma fillTables_seating:
  "fillTables ppl tables pos h = Inr (a, h') \<Longrightarrow> 0 \<le> pos \<Longrightarrow>
   soff ppl + scap ppl \<le> length (arrays h (sbase ppl)) \<Longrightarrow>
     arrays h' = arrays h
   \<and> map capacity a = map capacity tables
   \<and> seated h' a =
       take (nat (sum_list (map capacity tables))) (drop (soff ppl + nat pos) (arrays h (sbase ppl)))
   \<and> (\<forall>t\<in>set a. int (length (occupants h' t)) = capacity t)"
proof (induction tables arbitrary: pos h a)
  case Nil
  then show ?case by (simp add: seated_def)
next
  case (Cons t ts)
  from Cons.prems(1) obtain s h1 x where sub: "subSlice ppl pos (pos + capacity t) = Inr s"
    and mark: "markPeople (peopleMap t) (sliceElems h (people t)) h = Inr h1"
    and rest: "fillTables ppl ts (pos + capacity t) h1 = Inr x"
    and a: "(case x of (rest', h2) \<Rightarrow> Inr (t\<lparr>people := s\<rparr> # rest', h2)) =
              (Inr (a, h') :: panic + (table list \<times> heap))"
    by (auto simp: andThen_eq_Inr)
  obtain a1 h2 where x: "x = (a1, h2)" by (cases x)
  from a x have a': "a = t\<lparr>people := s\<rparr> # a1" and h2: "h2 = h'" by simp_all
  from sub have bounds: "0 \<le> pos" "pos \<le> pos + capacity t" "pos + capacity t \<le> int (scap ppl)"
    and s: "s = \<lparr>sbase = sbase ppl, soff = soff ppl + nat pos, slen = nat (capacity t),
                 scap = scap ppl - nat pos\<rparr>"
    by (auto simp: subSlice_def split: if_splits)
  note m = markPeople_arrays [OF mark]
  have pos': "0 \<le> pos + capacity t" using bounds by simp
  have len1: "soff ppl + scap ppl \<le> length (arrays h1 (sbase ppl))"
    using Cons.prems(3) m by simp
  from Cons.IH [OF rest [unfolded x h2] pos' len1]
  have ih: "arrays h' = arrays h1" "map capacity a1 = map capacity ts"
    "seated h' a1 = take (nat (sum_list (map capacity ts)))
        (drop (soff ppl + nat (pos + capacity t)) (arrays h1 (sbase ppl)))"
    "\<forall>u\<in>set a1. int (length (occupants h' u)) = capacity u"
    by simp_all
  let ?arr = "arrays h (sbase ppl)"
  have arr: "arrays h' = arrays h" using ih(1) m by simp
  have c0: "0 \<le> capacity t" using bounds by simp
  have "0 \<le> sum_list (map capacity a1)"
    using ih(4) by (intro sum_list_nonneg) force
  then have r0: "0 \<le> sum_list (map capacity ts)" using ih(2) by simp
  have o: "occupants h' (t\<lparr>people := s\<rparr>) = take (nat (capacity t)) (drop (soff ppl + nat pos) ?arr)"
    by (simp add: occupants_def sliceElems_def s arr)
  have "nat (capacity t) + (soff ppl + nat pos) \<le> length ?arr"
    using bounds Cons.prems(3) by linarith
  then have ol: "int (length (occupants h' (t\<lparr>people := s\<rparr>))) = capacity t"
    using c0 by (simp add: o)
  have "seated h' a = occupants h' (t\<lparr>people := s\<rparr>) @ seated h' a1"
    by (simp add: seated_def a')
  also have "\<dots> = take (nat (capacity t)) (drop (soff ppl + nat pos) ?arr)
        @ take (nat (sum_list (map capacity ts)))
            (drop (nat (capacity t)) (drop (soff ppl + nat pos) ?arr))"
    using c0 bounds(1) by (simp add: o ih(3) m nat_add_distrib ac_simps)
  also have "\<dots> = take (nat (capacity t) + nat (sum_list (map capacity ts)))
        (drop (soff ppl + nat pos) ?arr)"
    by (simp add: take_add)
  also have "nat (capacity t) + nat (sum_list (map capacity ts)) =
        nat (sum_list (map capacity (t # ts)))"
    using c0 r0 by (simp add: nat_add_distrib)
  finally have seat: "seated h' a = take (nat (sum_list (map capacity (t # ts))))
        (drop (soff ppl + nat pos) ?arr)" .
  show ?case using arr ih(2,4) seat ol by (simp add: a')
qed

lemma randomInitialisation_partition:
  assumes run: "randomInitialisation ppl tables (r, h) = Inr (a, r', h')"
    and alloc: "slen ppl \<le> scap ppl" "soff ppl + scap ppl \<le> length (arrays h (sbase ppl))"
    and total: "sum_list (map capacity tables) = int (slen ppl)"
  shows "mset (seated h' a) = mset (sliceElems h ppl)"
    and "map capacity a = map capacity tables"
    and "\<forall>t\<in>set a. int (length (occupants h' t)) = capacity t"
proof -
  from run obtain r1 h1 where sh: "shuffleFrom (slen ppl) 0 ppl (r, h) = Inr (r1, h1)"
    and fill: "fillTables ppl tables 0 h1 = Inr (a, h')"
    by (auto simp: randomInitialisation_def andThen_eq_Inr)
  have fit: "soff ppl + slen ppl \<le> length (arrays h (sbase ppl))" using alloc by simp
  from shuffleFrom_permutes [OF sh _ fit]
  have perm: "mset (sliceElems h1 ppl) = mset (sliceElems h ppl)"
    and len1: "length (arrays h1 (sbase ppl)) = length (arrays h (sbase ppl))"
    by simp_all
  have cap1: "soff ppl + scap ppl \<le> length (arrays h1 (sbase ppl))"
    using alloc(2) len1 by simp
  from fillTables_seating [OF fill _ cap1]
  have caps: "map capacity a = map capacity tables"
    and seat: "seated h' a = take (nat (sum_list (map capacity tables)))
        (drop (soff ppl + nat 0) (arrays h1 (sbase ppl)))"
    and full: "\<forall>t\<in>set a. int (length (occupants h' t)) = capacity t"
    by simp_all
  from seat have "seated h' a = sliceElems h1 ppl"
    by (simp add: total sliceElems_def)
  with perm show "mset (seated h' a) = mset (sliceElems h ppl)" by simp
  from caps show "map capacity a = map capacity tables" .
  from full show "\<forall>t\<in>set a. int (length (occupants h' t)) = capacity t" .
qed

end
